theory Spec2Isabelle
  imports Complex_Main "HOL-Library.Sublist"
begin

section \<open>JavaScript values\<close>

text \<open>
  The program is a single serverless function written in JavaScript
  (\<^verbatim>\<open>src/api/research-breakdown.js\<close>; \<^verbatim>\<open>src/unnamed/part_000\<close> is an earlier
  copy that differs in \<^verbatim>\<open>webSearch\<close> and in the wording of the prompt). The data it
  handles are untyped JSON values, so the embedding works on a datatype of
  JavaScript values.

  A string is a list of characters, one per UTF-16 code unit; HOL's \<^typ>\<open>char\<close>
  holds the code units up to 255. A number is an exact rational, or one of
  the three special values; rounding to a double is not modelled (the code only
  compares numbers with 10, 180 and 0, which is exact on doubles).
\<close>

datatype jsnum = NaN | PosInf | NegInf | Fin rat

datatype jsval =
    JUndefined
  | JNull
  | JBool bool
  | JNum jsnum
  | JStr string
  | JArr "jsval list"
  | JObj "(string \<times> jsval) list"

text \<open>Exceptions are values: every \<^verbatim>\<open>throw\<close> of the source and every exception of the
  engine is a branch that returns \<^term>\<open>Inl e\<close>.\<close>

datatype js_error =
    TypeError
  | SyntaxError
  | NetworkError
  | Error string

text \<open>\<^verbatim>\<open>!v\<close>, \<^verbatim>\<open>v || d\<close> and \<^verbatim>\<open>if (v)\<close> test truthiness.\<close>

fun truthy :: "jsval \<Rightarrow> bool" where
  "truthy JUndefined = False"
| "truthy JNull = False"
| "truthy (JBool b) = b"
| "truthy (JNum n) = (n \<noteq> NaN \<and> n \<noteq> Fin 0)"
| "truthy (JStr s) = (s \<noteq> [])"
| "truthy (JArr xs) = True"
| "truthy (JObj kvs) = True"

section \<open>Text Sanitizer: \<^verbatim>\<open>stripHtml\<close>\<close>

text \<open>\<^verbatim>\<open>\s\<close> of a regular expression and \<^verbatim>\<open>trim\<close> use the same set of characters:
  white space and line terminators. Below code unit 256 these are tab, line
  feed, vertical tab, form feed, carriage return, space and no-break space.\<close>

definition is_space :: "char \<Rightarrow> bool" where
  "is_space c =
     (c = CHR 0x09 \<or> c = CHR 0x0A \<or> c = CHR 0x0B \<or> c = CHR 0x0C \<or> c = CHR 0x0D \<or>
      c = CHR '' '' \<or> c = CHR 0xA0)"

text \<open>The flag \<^verbatim>\<open>i\<close> compares letters regardless of case. The patterns of the source
  are written in lower case, so a character of the text matches a character of
  the pattern when its lower-case form is that character.\<close>

definition to_lower :: "char \<Rightarrow> char" where
  "to_lower c =
     (case map_of (zip ''ABCDEFGHIJKLMNOPQRSTUVWXYZ'' ''abcdefghijklmnopqrstuvwxyz'') c of
        Some l \<Rightarrow> l
      | None \<Rightarrow> c)"

fun starts_ci :: "string \<Rightarrow> string \<Rightarrow> bool" where
  "starts_ci [] s = True"
| "starts_ci (p # ps) [] = False"
| "starts_ci (p # ps) (c # cs) = (to_lower c = p \<and> starts_ci ps cs)"

text \<open>The text after the first occurrence of the pattern \<open>p\<close> (case-insensitive), if
  there is one: what a lazy \<^verbatim>\<open>[\s\S]*?\<close> followed by \<open>p\<close> consumes.\<close>

fun after_first_ci :: "string \<Rightarrow> string \<Rightarrow> string option" where
  "after_first_ci p [] = (if p = [] then Some [] else None)"
| "after_first_ci p (c # cs) =
     (if starts_ci p (c # cs) then Some (drop (length p) (c # cs))
      else after_first_ci p cs)"

lemma after_first_ci_length:
  "after_first_ci p s = Some r \<Longrightarrow> length r \<le> length s"
  by (induction s) (auto split: if_splits)

text \<open>\<^verbatim>\<open>.replace(/<script[\s\S]*?<\/script>/gi, " ")\<close> is
  \<open>replace_block ''script'' ''</script>''\<close>, and the same with \<^verbatim>\<open>style\<close>: scanning from
  the left, a \<^verbatim>\<open><\<close> followed by the tag name starts a match if the closing tag
  occurs later; the match ends with the first such closing tag and is replaced
  by one space; the scan goes on after the match.\<close>

function replace_block :: "string \<Rightarrow> string \<Rightarrow> string \<Rightarrow> string" where
  "replace_block name cl [] = []"
| "replace_block name cl (c # cs) =
     (if c = CHR ''<'' \<and> starts_ci name cs then
        (case after_first_ci cl (drop (length name) cs) of
           Some rest \<Rightarrow> CHR '' '' # replace_block name cl rest
         | None \<Rightarrow> c # replace_block name cl cs)
      else c # replace_block name cl cs)"
  by pat_completeness auto
termination
proof (relation "measure (\<lambda>(name, cl, s). length s)")
  fix name cl :: string and c :: char and cs rest :: string
  assume "after_first_ci cl (drop (length name) cs) = Some rest"
  then have "length rest \<le> length (drop (length name) cs)"
    by (rule after_first_ci_length)
  then show "((name, cl, rest), (name, cl, c # cs)) \<in> measure (\<lambda>(name, cl, s). length s)"
    by simp
qed simp_all

text \<open>\<^verbatim>\<open>.replace(/<[^>]+>/g, " ")\<close>: a \<^verbatim>\<open><\<close> starts a match when at least one
  character other than \<^verbatim>\<open>>\<close> follows it and a \<^verbatim>\<open>>\<close> comes after those; the match
  ends with the first \<^verbatim>\<open>>\<close>. \<open>tag_end cs\<close> is the text after the match, for the text
  \<open>cs\<close> that follows the \<^verbatim>\<open><\<close>.\<close>

fun after_gt :: "string \<Rightarrow> string option" where
  "after_gt [] = None"
| "after_gt (c # cs) = (if c = CHR ''>'' then Some cs else after_gt cs)"

fun tag_end :: "string \<Rightarrow> string option" where
  "tag_end [] = None"
| "tag_end (c # cs) = (if c = CHR ''>'' then None else after_gt cs)"

lemma after_gt_length: "after_gt s = Some r \<Longrightarrow> length r < length s"
  by (induction s) (auto split: if_splits)

lemma tag_end_length: "tag_end s = Some r \<Longrightarrow> length r < length s"
  by (cases s) (auto split: if_splits dest: after_gt_length)

function replace_tags :: "string \<Rightarrow> string" where
  "replace_tags [] = []"
| "replace_tags (c # cs) =
     (if c = CHR ''<'' then
        (case tag_end cs of
           Some rest \<Rightarrow> CHR '' '' # replace_tags rest
         | None \<Rightarrow> c # replace_tags cs)
      else c # replace_tags cs)"
  by pat_completeness auto
termination
proof (relation "measure length")
  fix c :: char and cs rest :: string
  assume "tag_end cs = Some rest"
  then have "length rest < length cs"
    by (rule tag_end_length)
  then show "(rest, c # cs) \<in> measure length"
    by simp
qed simp_all

text \<open>\<^verbatim>\<open>.replace(/\s+/g, " ")\<close>\<close>

function collapse_ws :: "string \<Rightarrow> string" where
  "collapse_ws [] = []"
| "collapse_ws (c # cs) =
     (if is_space c then CHR '' '' # collapse_ws (dropWhile is_space cs)
      else c # collapse_ws cs)"
  by pat_completeness auto
termination
  by (relation "measure length") (auto simp: length_dropWhile_le less_Suc_eq_le)

text \<open>\<^verbatim>\<open>.trim()\<close>\<close>

definition trim :: "string \<Rightarrow> string" where
  "trim s = rev (dropWhile is_space (rev (dropWhile is_space s)))"

text \<open>\<^verbatim>\<open>stripHtml(html)\<close>. A falsy argument (\<^verbatim>\<open>null\<close>, \<^verbatim>\<open>undefined\<close>, the empty
  string, ...) gives the empty string. A truthy argument that is not a string
  has no method \<^verbatim>\<open>replace\<close>: the call throws a TypeError.\<close>

definition strip_text :: "string \<Rightarrow> string" where
  "strip_text s =
     trim (collapse_ws (replace_tags
       (replace_block ''style'' ''</style>'' (replace_block ''script'' ''</script>'' s))))"

definition stripHtml :: "jsval \<Rightarrow> js_error + string" where
  "stripHtml html =
     (if \<not> truthy html then Inr []
      else case html of JStr s \<Rightarrow> Inr (strip_text s) | _ \<Rightarrow> Inl TypeError)"


text \<open>What the sanitizer's output is measured by: \<open>ws_run s\<close> says that \<open>s\<close> has two
  adjacent white-space characters; \<open>has_tag s\<close> says that \<open>s\<close> still has a match
  of \<^verbatim>\<open><[^>]+>\<close>; \<open>norm_ws s\<close> says that every white-space character of \<open>s\<close> is
  a space that no white space follows.\<close>

fun ws_run :: "string \<Rightarrow> bool" where
  "ws_run (a # b # cs) = ((is_space a \<and> is_space b) \<or> ws_run (b # cs))"
| "ws_run cs = False"

fun has_tag :: "string \<Rightarrow> bool" where
  "has_tag [] = False"
| "has_tag (c # cs) = ((c = CHR ''<'' \<and> tag_end cs \<noteq> None) \<or> has_tag cs)"

fun norm_ws :: "string \<Rightarrow> bool" where
  "norm_ws [] = True"
| "norm_ws (c # cs) =
     ((if is_space c
       then c = CHR '' '' \<and> (case cs of [] \<Rightarrow> True | d # ds \<Rightarrow> \<not> is_space d)
       else True) \<and>
      norm_ws cs)"

section \<open>Operations of the language\<close>

text \<open>\<^verbatim>\<open>a || b\<close>\<close>

definition js_or :: "jsval \<Rightarrow> jsval \<Rightarrow> jsval" where
  "js_or a b = (if truthy a then a else b)"

text \<open>\<^verbatim>\<open>v.p\<close> throws a TypeError when \<open>v\<close> is \<^verbatim>\<open>null\<close> or \<^verbatim>\<open>undefined\<close>. The
  program reads the properties \<^verbatim>\<open>task\<close>, \<^verbatim>\<open>text\<close>, \<^verbatim>\<open>estimatedTimeMinutes\<close>,
  \<^verbatim>\<open>priority\<close>, \<^verbatim>\<open>dependsOn\<close>, \<^verbatim>\<open>microTasks\<close>, \<^verbatim>\<open>organic_results\<close>, \<^verbatim>\<open>title\<close>,
  \<^verbatim>\<open>link\<close>, \<^verbatim>\<open>snippet\<close>, \<^verbatim>\<open>query\<close>, \<^verbatim>\<open>search\<close>, \<^verbatim>\<open>content\<close>, \<^verbatim>\<open>choices\<close> and
  \<^verbatim>\<open>message\<close>; none of them is a property that strings, numbers, booleans or
  arrays inherit, so on those the result is \<^verbatim>\<open>undefined\<close>. An object built by
  \<^verbatim>\<open>JSON.parse\<close> holds each key once.\<close>

fun get_prop :: "jsval \<Rightarrow> string \<Rightarrow> js_error + jsval" where
  "get_prop JUndefined p = Inl TypeError"
| "get_prop JNull p = Inl TypeError"
| "get_prop (JObj kvs) p = Inr (case map_of kvs p of Some v \<Rightarrow> v | None \<Rightarrow> JUndefined)"
| "get_prop v p = Inr JUndefined"

text \<open>\<^verbatim>\<open>v?.p\<close>\<close>

fun opt_prop :: "jsval \<Rightarrow> string \<Rightarrow> jsval" where
  "opt_prop (JObj kvs) p = (case map_of kvs p of Some v \<Rightarrow> v | None \<Rightarrow> JUndefined)"
| "opt_prop v p = JUndefined"

text \<open>\<^verbatim>\<open>v[0]\<close> on a value that is not \<^verbatim>\<open>null\<close> or \<^verbatim>\<open>undefined\<close>: the first element
  of an array, the first character of a string, the property \<^verbatim>\<open>"0"\<close> of an
  object.\<close>

fun index0 :: "jsval \<Rightarrow> jsval" where
  "index0 (JArr xs) = (case xs of [] \<Rightarrow> JUndefined | x # _ \<Rightarrow> x)"
| "index0 (JStr s) = (case s of [] \<Rightarrow> JUndefined | c # _ \<Rightarrow> JStr [c])"
| "index0 (JObj kvs) = (case map_of kvs ''0'' of Some v \<Rightarrow> v | None \<Rightarrow> JUndefined)"
| "index0 v = JUndefined"

text \<open>Sequencing of steps that may throw.\<close>

definition and_then :: "'e + 'a \<Rightarrow> ('a \<Rightarrow> 'e + 'b) \<Rightarrow> 'e + 'b" where
  "and_then m f = (case m of Inl e \<Rightarrow> Inl e | Inr x \<Rightarrow> f x)"

text \<open>\<^verbatim>\<open>xs.map(f)\<close> with the index as second argument, for an \<open>f\<close> that may throw:
  the first exception ends the whole call.\<close>

fun map_idx :: "(nat \<Rightarrow> 'a \<Rightarrow> 'e + 'b) \<Rightarrow> nat \<Rightarrow> 'a list \<Rightarrow> 'e + 'b list" where
  "map_idx f i [] = Inr []"
| "map_idx f i (x # xs) =
     (case f i x of
        Inl e \<Rightarrow> Inl e
      | Inr y \<Rightarrow> (case map_idx f (Suc i) xs of Inl e \<Rightarrow> Inl e | Inr ys \<Rightarrow> Inr (y # ys)))"

subsection \<open>Conversion to a number\<close>

text \<open>\<^verbatim>\<open>Number(s)\<close> on a string follows the grammar of numeric string literals:
  white space around the literal is dropped; the empty string is 0; the
  literal is \<^verbatim>\<open>Infinity\<close> or a decimal number with optional sign, fraction and
  exponent, or an unsigned integer in base 16, 8 or 2 after \<^verbatim>\<open>0x\<close>, \<^verbatim>\<open>0o\<close>,
  \<^verbatim>\<open>0b\<close>; everything else is \<^verbatim>\<open>NaN\<close>.\<close>

definition is_digit :: "char \<Rightarrow> bool" where
  "is_digit c = (c \<in> set ''0123456789'')"

definition digit_of :: "char \<Rightarrow> nat option" where
  "digit_of c =
     map_of (zip ''0123456789abcdef'' [0, 1, 2, 3, 4, 5, 6, 7, 8, 9, 10, 11, 12, 13, 14, 15])
       (to_lower c)"

definition radix_value :: "nat \<Rightarrow> string \<Rightarrow> nat" where
  "radix_value b s = foldl (\<lambda>a c. a * b + (case digit_of c of Some d \<Rightarrow> d | None \<Rightarrow> 0)) 0 s"

definition radix_literal :: "nat \<Rightarrow> string \<Rightarrow> jsnum" where
  "radix_literal b s =
     (if s \<noteq> [] \<and> list_all (\<lambda>c. case digit_of c of Some d \<Rightarrow> d < b | None \<Rightarrow> False) s
      then Fin (of_nat (radix_value b s)) else NaN)"

definition mantissa :: "string \<Rightarrow> rat option" where
  "mantissa m =
     (let ip = takeWhile is_digit m in
      case dropWhile is_digit m of
        [] \<Rightarrow> if ip = [] then None else Some (of_nat (radix_value 10 ip))
      | c # fp \<Rightarrow>
          if c = CHR ''.'' \<and> list_all is_digit fp \<and> (ip \<noteq> [] \<or> fp \<noteq> [])
          then Some (of_nat (radix_value 10 (ip @ fp)) / 10 ^ length fp)
          else None)"

definition exponent :: "string \<Rightarrow> int option" where
  "exponent x =
     (let digits = (\<lambda>ds. if ds \<noteq> [] \<and> list_all is_digit ds
                          then Some (int (radix_value 10 ds)) else None) in
      case x of
        [] \<Rightarrow> None
      | c # cs \<Rightarrow>
          if c = CHR ''+'' then digits cs
          else if c = CHR ''-'' then map_option uminus (digits cs)
          else digits (c # cs))"

definition unsigned_literal :: "string \<Rightarrow> jsnum" where
  "unsigned_literal s =
     (if s = ''Infinity'' then PosInf
      else
        let not_e = (\<lambda>c. c \<noteq> CHR ''e'' \<and> c \<noteq> CHR ''E'') in
        case mantissa (takeWhile not_e s) of
          None \<Rightarrow> NaN
        | Some q \<Rightarrow>
            (case dropWhile not_e s of
               [] \<Rightarrow> Fin q
             | _ # ex \<Rightarrow>
                 (case exponent ex of
                    None \<Rightarrow> NaN
                  | Some k \<Rightarrow> Fin (if 0 \<le> k then q * 10 ^ nat k else q / 10 ^ nat (- k)))))"

fun negate :: "jsnum \<Rightarrow> jsnum" where
  "negate NaN = NaN"
| "negate PosInf = NegInf"
| "negate NegInf = PosInf"
| "negate (Fin q) = Fin (- q)"

definition signed_literal :: "string \<Rightarrow> jsnum" where
  "signed_literal s =
     (case s of
        [] \<Rightarrow> NaN
      | c # cs \<Rightarrow>
          if c = CHR ''+'' then unsigned_literal cs
          else if c = CHR ''-'' then negate (unsigned_literal cs)
          else unsigned_literal (c # cs))"

definition string_to_number :: "string \<Rightarrow> jsnum" where
  "string_to_number s =
     (let t = trim s in
      if t = [] then Fin 0
      else
        case t of
          z # p # ds \<Rightarrow>
            if z = CHR ''0'' \<and> to_lower p = CHR ''x'' then radix_literal 16 ds
            else if z = CHR ''0'' \<and> to_lower p = CHR ''o'' then radix_literal 8 ds
            else if z = CHR ''0'' \<and> to_lower p = CHR ''b'' then radix_literal 2 ds
            else signed_literal t
        | _ \<Rightarrow> signed_literal t)"

text \<open>\<^verbatim>\<open>Number(v)\<close>. An array is converted through its string form, the elements
  joined by commas with \<^verbatim>\<open>null\<close> and \<^verbatim>\<open>undefined\<close> as empty strings: the string of
  an array of two or more elements has a comma and is no number; the string of a
  one-element array is the string of the element, and a number printed and read
  again is the same number. An object is \<^verbatim>\<open>[object Object]\<close>, no number.\<close>

fun to_number :: "jsval \<Rightarrow> jsnum" where
  "to_number JUndefined = NaN"
| "to_number JNull = Fin 0"
| "to_number (JBool b) = Fin (if b then 1 else 0)"
| "to_number (JNum n) = n"
| "to_number (JStr s) = string_to_number s"
| "to_number (JArr []) = Fin 0"
| "to_number (JArr [x]) =
     (case x of
        JUndefined \<Rightarrow> Fin 0
      | JNull \<Rightarrow> Fin 0
      | JBool b \<Rightarrow> NaN
      | _ \<Rightarrow> to_number x)"
| "to_number (JArr (x # y # zs)) = NaN"
| "to_number (JObj kvs) = NaN"

text \<open>\<^verbatim>\<open>Math.min\<close> and \<^verbatim>\<open>Math.max\<close> of two numbers: \<^verbatim>\<open>NaN\<close> if one of them is.\<close>

fun num_le :: "jsnum \<Rightarrow> jsnum \<Rightarrow> bool" where
  "num_le NaN b = False"
| "num_le a NaN = False"
| "num_le NegInf b = True"
| "num_le a PosInf = True"
| "num_le (Fin p) (Fin q) = (p \<le> q)"
| "num_le a b = False"

definition math_min :: "jsnum \<Rightarrow> jsnum \<Rightarrow> jsnum" where
  "math_min a b = (if a = NaN \<or> b = NaN then NaN else if num_le a b then a else b)"

definition math_max :: "jsnum \<Rightarrow> jsnum \<Rightarrow> jsnum" where
  "math_max a b = (if a = NaN \<or> b = NaN then NaN else if num_le a b then b else a)"

subsection \<open>Conversion to a string\<close>

text \<open>The engine, as far as the program calls it and it is no part of the
  repository: \<^verbatim>\<open>JSON.parse\<close> on a string (\<open>None\<close> when it throws a SyntaxError)
  and the printing of a number as a string. Both are parameters of the
  embedding.\<close>

record engine =
  JSON_parse :: "string \<Rightarrow> jsval option"
  number_to_string :: "jsnum \<Rightarrow> string"

definition join :: "string \<Rightarrow> string list \<Rightarrow> string" where
  "join sep xs = (case xs of [] \<Rightarrow> [] | y # ys \<Rightarrow> y @ concat (map (\<lambda>z. sep @ z) ys))"

text \<open>\<^verbatim>\<open>String(v)\<close> and the conversion of \<^verbatim>\<open>${v}\<close> in a template.\<close>

fun to_string :: "engine \<Rightarrow> jsval \<Rightarrow> string" where
  "to_string E JUndefined = ''undefined''"
| "to_string E JNull = ''null''"
| "to_string E (JBool b) = (if b then ''true'' else ''false'')"
| "to_string E (JNum n) = number_to_string E n"
| "to_string E (JStr s) = s"
| "to_string E (JArr xs) =
     join '','' (map (\<lambda>x. if x = JNull \<or> x = JUndefined then [] else to_string E x) xs)"
| "to_string E (JObj kvs) = ''[object Object]''"

function show_nat :: "nat \<Rightarrow> string" where
  "show_nat n =
     (if n < 10 then [''0123456789'' ! n]
      else show_nat (n div 10) @ [''0123456789'' ! (n mod 10)])"
  by pat_completeness auto
termination
  by (relation "measure id") auto

section \<open>Response Normalizer\<close>

subsection \<open>\<^verbatim>\<open>safeParseJson\<close>\<close>

definition fence :: string where
  "fence = [CHR 0x60, CHR 0x60, CHR 0x60]"

text \<open>\<^verbatim>\<open>text.match(/```json[\s\S]*?```/i)\<close>: the leftmost place where the opening
  fence (in any case) is followed, later, by three backquotes; the match runs to
  the first such closing. The result is the matched text, \<open>None\<close> for \<^verbatim>\<open>null\<close>.\<close>

fun upto_first :: "string \<Rightarrow> string \<Rightarrow> string option" where
  "upto_first p [] = (if p = [] then Some [] else None)"
| "upto_first p (c # cs) =
     (if starts_ci p (c # cs) then Some (take (length p) (c # cs))
      else map_option (\<lambda>m. c # m) (upto_first p cs))"

fun match_fence :: "string \<Rightarrow> string option" where
  "match_fence [] = None"
| "match_fence (c # cs) =
     (if starts_ci (fence @ ''json'') (c # cs) then
        (case upto_first fence (drop 7 (c # cs)) of
           Some m \<Rightarrow> Some (take 7 (c # cs) @ m)
         | None \<Rightarrow> match_fence cs)
      else match_fence cs)"

text \<open>\<^verbatim>\<open>text.match(/\{[\s\S]*\}/)\<close>: from the first \<^verbatim>\<open>{\<close> to the last \<^verbatim>\<open>}\<close> after
  it.\<close>

definition upto_last_brace :: "string \<Rightarrow> string option" where
  "upto_last_brace s =
     (if CHR ''}'' \<in> set s then Some (rev (dropWhile (\<lambda>c. c \<noteq> CHR ''}'') (rev s))) else None)"

fun match_braces :: "string \<Rightarrow> string option" where
  "match_braces [] = None"
| "match_braces (c # cs) =
     (if c = CHR ''{'' then map_option (\<lambda>m. c # m) (upto_last_brace cs)
      else match_braces cs)"

text \<open>\<^verbatim>\<open>.replace(/```json|```/g, "")\<close>: this pattern has no flag \<^verbatim>\<open>i\<close>.\<close>

function strip_fences :: "string \<Rightarrow> string" where
  "strip_fences [] = []"
| "strip_fences (c # cs) =
     (if prefix (fence @ ''json'') (c # cs) then strip_fences (drop 6 cs)
      else if prefix fence (c # cs) then strip_fences (drop 2 cs)
      else c # strip_fences cs)"
  by pat_completeness auto
termination
  by (relation "measure length") auto

text \<open>\<^verbatim>\<open>safeParseJson(text)\<close>. \<^verbatim>\<open>JSON.parse\<close> converts its argument to a string first. When
  the direct parse throws, \<^verbatim>\<open>text.match\<close> is called, which only a string has. The
  two patterns are tried with \<^verbatim>\<open>||\<close>: the brace pattern is consulted only when the
  fence pattern has no match. Whatever matched is stripped of fences and parsed;
  when that throws, the result is \<^verbatim>\<open>null\<close>.\<close>

definition candidate :: "string \<Rightarrow> string option" where
  "candidate text = (case match_fence text of Some m \<Rightarrow> Some m | None \<Rightarrow> match_braces text)"

definition safeParseJson :: "engine \<Rightarrow> jsval \<Rightarrow> js_error + jsval" where
  "safeParseJson E raw =
     (case JSON_parse E (to_string E raw) of
        Some v \<Rightarrow> Inr v
      | None \<Rightarrow>
          (case raw of
             JStr text \<Rightarrow>
               (case candidate text of
                  Some m \<Rightarrow>
                    (case JSON_parse E (strip_fences m) of
                       Some v \<Rightarrow> Inr v
                     | None \<Rightarrow> Inr JNull)
                | None \<Rightarrow> Inr JNull)
           | _ \<Rightarrow> Inl TypeError))"

subsection \<open>Normalization of the micro-tasks\<close>

record microtask =
  mt_id :: nat
  mt_text :: string
  mt_estimatedTime :: jsnum
  mt_priority :: string
  mt_dependsOn :: "jsval list"

text \<open>\<^verbatim>\<open>String(t.text || "Untitled task").trim()\<close>\<close>

definition norm_text :: "engine \<Rightarrow> jsval \<Rightarrow> string" where
  "norm_text E v = trim (to_string E (js_or v (JStr ''Untitled task'')))"

text \<open>\<^verbatim>\<open>Math.max(10, Math.min(180, Number(t.estimatedTimeMinutes) || 30))\<close>\<close>

definition num_or :: "jsnum \<Rightarrow> jsnum \<Rightarrow> jsnum" where
  "num_or a b = (if truthy (JNum a) then a else b)"

definition norm_estimatedTime :: "jsval \<Rightarrow> jsnum" where
  "norm_estimatedTime v = math_max (Fin 10) (math_min (Fin 180) (num_or (to_number v) (Fin 30)))"

text \<open>\<^verbatim>\<open>["high", "medium", "low"].includes(t.priority) ? t.priority : "medium"\<close>\<close>

definition norm_priority :: "jsval \<Rightarrow> string" where
  "norm_priority v =
     (case v of
        JStr s \<Rightarrow> if s \<in> set [''high'', ''medium'', ''low''] then s else ''medium''
      | _ \<Rightarrow> ''medium'')"

text \<open>\<^verbatim>\<open>Array.isArray(t.dependsOn) ? t.dependsOn : []\<close>\<close>

definition norm_dependsOn :: "jsval \<Rightarrow> jsval list" where
  "norm_dependsOn v = (case v of JArr xs \<Rightarrow> xs | _ \<Rightarrow> [])"

text \<open>The function given to \<^verbatim>\<open>map\<close>: reading a property of an entry that is
  \<^verbatim>\<open>null\<close> throws.\<close>

definition normalize_task :: "engine \<Rightarrow> nat \<Rightarrow> jsval \<Rightarrow> js_error + microtask" where
  "normalize_task E idx t =
     and_then (get_prop t ''text'') (\<lambda>tx.
     and_then (get_prop t ''estimatedTimeMinutes'') (\<lambda>et.
     and_then (get_prop t ''priority'') (\<lambda>pr.
     and_then (get_prop t ''dependsOn'') (\<lambda>dp.
       Inr \<lparr>mt_id = idx + 1,
            mt_text = norm_text E tx,
            mt_estimatedTime = norm_estimatedTime et,
            mt_priority = norm_priority pr,
            mt_dependsOn = norm_dependsOn dp\<rparr>))))"

text \<open>\<^verbatim>\<open>Array.isArray(parsed?.microTasks) ? parsed.microTasks : []\<close>\<close>

definition microTasks_of :: "jsval \<Rightarrow> jsval list" where
  "microTasks_of parsed = (case opt_prop parsed ''microTasks'' of JArr xs \<Rightarrow> xs | _ \<Rightarrow> [])"

text \<open>\<^verbatim>\<open>microTasks.slice(0, 20).map((t, idx) => ...)\<close>\<close>

definition normalize :: "engine \<Rightarrow> jsval list \<Rightarrow> js_error + microtask list" where
  "normalize E microTasks = map_idx (normalize_task E) 0 (take 20 microTasks)"

section \<open>The network\<close>

text \<open>A response is what the program reads of it: the status, what \<^verbatim>\<open>res.json()\<close>
  gives and what \<^verbatim>\<open>res.text()\<close> gives (\<open>None\<close> when the call rejects). A call
  of \<^verbatim>\<open>fetch\<close> either rejects or gives a response. The network is a parameter:
  a function from the requests made so far and the request made now to the
  outcome. A request is the URL and the options object; the body of a POST is
  held as the value that the source passes to \<^verbatim>\<open>JSON.stringify\<close>. Every function
  that calls \<^verbatim>\<open>fetch\<close> takes the list of requests made so far and returns it
  extended.\<close>

record response =
  r_status :: nat
  r_json :: "jsval option"
  r_text :: "string option"

datatype outcome = Rejected | Responded response

type_synonym request = "string \<times> jsval"

type_synonym network = "request list \<Rightarrow> request \<Rightarrow> outcome"

definition ok :: "response \<Rightarrow> bool" where
  "ok r = (200 \<le> r_status r \<and> r_status r \<le> 299)"

record env =
  SERPAPI_API_KEY :: "string option"
  OPENAI_API_KEY :: "string option"
  ANTHROPIC_API_KEY :: "string option"

text \<open>\<^verbatim>\<open>if (apiKey)\<close>: the variable is set and not the empty string.\<close>

definition configured :: "string option \<Rightarrow> bool" where
  "configured k = (case k of None \<Rightarrow> False | Some s \<Rightarrow> s \<noteq> [])"

text \<open>\<^verbatim>\<open>encodeURIComponent\<close>: a character outside the unreserved set becomes the
  bytes of its UTF-8 encoding, each as \<^verbatim>\<open>%XX\<close>.\<close>

definition percent :: "nat \<Rightarrow> string" where
  "percent b = [CHR ''%'', ''0123456789ABCDEF'' ! (b div 16), ''0123456789ABCDEF'' ! (b mod 16)]"

definition unreserved :: "char \<Rightarrow> bool" where
  "unreserved c =
     (c \<in> set (''ABCDEFGHIJKLMNOPQRSTUVWXYZabcdefghijklmnopqrstuvwxyz0123456789-_.!~*()'' @
               [CHR 0x27]))"

definition encode_char :: "char \<Rightarrow> string" where
  "encode_char c =
     (if unreserved c then [c]
      else
        let n = (of_char c :: nat) in
        if n < 128 then percent n else percent (192 + n div 64) @ percent (128 + n mod 64))"

definition encodeURIComponent :: "string \<Rightarrow> string" where
  "encodeURIComponent s = concat (map encode_char s)"

section \<open>Web Research Provider: \<^verbatim>\<open>webSearch\<close>\<close>

record search_result =
  sr_title :: jsval
  sr_link :: jsval
  sr_snippet :: jsval

text \<open>\<^verbatim>\<open>(data.organic_results || []).map(r => ({title: r.title, link: r.link,
  snippet: r.snippet || ""}))\<close>: only an array has \<^verbatim>\<open>map\<close>.\<close>

definition organic_result :: "jsval \<Rightarrow> js_error + search_result" where
  "organic_result r =
     and_then (get_prop r ''title'') (\<lambda>t.
     and_then (get_prop r ''link'') (\<lambda>l.
     and_then (get_prop r ''snippet'') (\<lambda>s.
       Inr \<lparr>sr_title = t, sr_link = l, sr_snippet = js_or s (JStr [])\<rparr>)))"

definition organic_results :: "jsval \<Rightarrow> js_error + search_result list" where
  "organic_results data =
     and_then (get_prop data ''organic_results'') (\<lambda>rs.
       case js_or rs (JArr []) of
         JArr xs \<Rightarrow> map_idx (\<lambda>i. organic_result) 0 xs
       | _ \<Rightarrow> Inl TypeError)"

definition searchQueries :: "string \<Rightarrow> string list" where
  "searchQueries task =
     [task @ '' step by step guide 2024'',
      task @ '' best practices tutorial'',
      task @ '' implementation checklist'',
      task @ '' project requirements breakdown'',
      task @ '' development roadmap'']"

definition serp_url :: "string \<Rightarrow> string \<Rightarrow> string \<Rightarrow> string" where
  "serp_url num apiKey query =
     ''https://serpapi.com/search.json?engine=google&q='' @ encodeURIComponent query @
     ''&num='' @ num @ ''&api_key='' @ apiKey"

text \<open>The loop over the queries, inside the \<^verbatim>\<open>try\<close>: \<open>Inl\<close> is the exception that
  leaves the loop. A response that is not \<^verbatim>\<open>ok\<close> adds nothing and the loop goes
  on.\<close>

fun query_loop ::
  "network \<Rightarrow> string \<Rightarrow> string list \<Rightarrow> search_result list \<Rightarrow> request list \<Rightarrow>
   (js_error + search_result list) \<times> request list" where
  "query_loop net apiKey [] allResults hist = (Inr allResults, hist)"
| "query_loop net apiKey (query # queries) allResults hist =
     (let rq = (serp_url ''3'' apiKey query, JUndefined) in
      case net hist rq of
        Rejected \<Rightarrow> (Inl NetworkError, hist @ [rq])
      | Responded res \<Rightarrow>
          if ok res then
            (case r_json res of
               None \<Rightarrow> (Inl SyntaxError, hist @ [rq])
             | Some data \<Rightarrow>
                 (case organic_results data of
                    Inl e \<Rightarrow> (Inl e, hist @ [rq])
                  | Inr results \<Rightarrow>
                      query_loop net apiKey queries (allResults @ results) (hist @ [rq])))
          else query_loop net apiKey queries allResults (hist @ [rq]))"

text \<open>\<^verbatim>\<open>r.link === result.link\<close>. \<open>strict_eq\<close> compares the values of two different
  entries: two objects or arrays that \<^verbatim>\<open>JSON.parse\<close> built are never the same
  object. An entry compared with itself is equal unless the value is \<^verbatim>\<open>NaN\<close>.\<close>

fun strict_eq :: "jsval \<Rightarrow> jsval \<Rightarrow> bool" where
  "strict_eq JUndefined JUndefined = True"
| "strict_eq JNull JNull = True"
| "strict_eq (JBool a) (JBool b) = (a = b)"
| "strict_eq (JNum a) (JNum b) = (a = b \<and> a \<noteq> NaN)"
| "strict_eq (JStr a) (JStr b) = (a = b)"
| "strict_eq a b = False"

definition same_link :: "nat \<times> search_result \<Rightarrow> nat \<times> search_result \<Rightarrow> bool" where
  "same_link r result =
     (if fst r = fst result then sr_link (snd result) \<noteq> JNum NaN
      else strict_eq (sr_link (snd r)) (sr_link (snd result)))"

text \<open>\<^verbatim>\<open>self.findIndex(p)\<close>, with \<open>None\<close> for -1.\<close>

fun findIndex :: "('a \<Rightarrow> bool) \<Rightarrow> 'a list \<Rightarrow> nat option" where
  "findIndex p [] = None"
| "findIndex p (x # xs) = (if p x then Some 0 else map_option Suc (findIndex p xs))"

text \<open>\<^verbatim>\<open>allResults.filter((result, index, self) => index === self.findIndex(r =>
  r.link === result.link))\<close>, on the entries paired with their indices.\<close>

definition uniqueResults :: "search_result list \<Rightarrow> search_result list" where
  "uniqueResults allResults =
     (let self = enumerate 0 allResults in
      map snd (filter (\<lambda>result. findIndex (\<lambda>r. same_link r result) self = Some (fst result)) self))"

text \<open>The block \<^verbatim>\<open>if (apiKey) { try { ... } catch (_) {} }\<close> of
  \<^verbatim>\<open>src/api/research-breakdown.js\<close>: \<open>Some\<close> is the value the function returns from
  inside the block, \<open>None\<close> means that control goes on to the fallback.\<close>

definition search_phase ::
  "network \<Rightarrow> env \<Rightarrow> string \<Rightarrow> request list \<Rightarrow> search_result list option \<times> request list" where
  "search_phase net ev task hist =
     (case SERPAPI_API_KEY ev of
        None \<Rightarrow> (None, hist)
      | Some apiKey \<Rightarrow>
          if apiKey = [] then (None, hist)
          else
            (case query_loop net apiKey (searchQueries task) [] hist of
               (Inl e, hist') \<Rightarrow> (None, hist')
             | (Inr allResults, hist') \<Rightarrow>
                 if uniqueResults allResults \<noteq> [] then (Some (take 8 (uniqueResults allResults)), hist')
                 else (None, hist')))"

text \<open>The fallback. \<^verbatim>\<open>p.title.replace(/ /g, '_')\<close> needs a string.\<close>

definition wiki_url :: "string \<Rightarrow> string" where
  "wiki_url task =
     ''https://en.wikipedia.org/w/api.php?action=query&list=search&srsearch='' @
     encodeURIComponent task @ ''&srlimit=3&format=json&origin=*''"

definition wiki_page :: "jsval \<Rightarrow> js_error + search_result" where
  "wiki_page p =
     and_then (get_prop p ''title'') (\<lambda>t.
       case t of
         JStr title \<Rightarrow>
           and_then (get_prop p ''snippet'') (\<lambda>s.
           and_then (stripHtml s) (\<lambda>snippet.
             Inr \<lparr>sr_title = t,
                  sr_link = JStr (''https://en.wikipedia.org/wiki/'' @
                    encodeURIComponent (map (\<lambda>c. if c = CHR '' '' then CHR ''_'' else c) title)),
                  sr_snippet = JStr snippet\<rparr>))
       | _ \<Rightarrow> Inl TypeError)"

text \<open>\<^verbatim>\<open>(data.query?.search || []).map(...)\<close>\<close>

definition wiki_pages :: "jsval \<Rightarrow> js_error + search_result list" where
  "wiki_pages data =
     and_then (get_prop data ''query'') (\<lambda>q.
       case js_or (opt_prop q ''search'') (JArr []) of
         JArr xs \<Rightarrow> map_idx (\<lambda>i. wiki_page) 0 xs
       | _ \<Rightarrow> Inl TypeError)"

definition wiki_fallback ::
  "network \<Rightarrow> string \<Rightarrow> request list \<Rightarrow> search_result list \<times> request list" where
  "wiki_fallback net task hist =
     (let rq = (wiki_url task, JUndefined) in
      case net hist rq of
        Rejected \<Rightarrow> ([], hist @ [rq])
      | Responded res \<Rightarrow>
          if \<not> ok res then ([], hist @ [rq])
          else
            (case r_json res of
               None \<Rightarrow> ([], hist @ [rq])
             | Some data \<Rightarrow>
                 (case wiki_pages data of
                    Inl e \<Rightarrow> ([], hist @ [rq])
                  | Inr pages \<Rightarrow> (take 3 pages, hist @ [rq]))))"

definition webSearch ::
  "network \<Rightarrow> env \<Rightarrow> string \<Rightarrow> request list \<Rightarrow> search_result list \<times> request list" where
  "webSearch net ev task hist =
     (case search_phase net ev task hist of
        (Some results, hist') \<Rightarrow> (results, hist')
      | (None, hist') \<Rightarrow> wiki_fallback net task hist')"

text \<open>The same block in \<^verbatim>\<open>src/unnamed/part_000\<close>: one query, at most five results,
  no removal of duplicates.\<close>

definition search_phase_single ::
  "network \<Rightarrow> env \<Rightarrow> string \<Rightarrow> request list \<Rightarrow> search_result list option \<times> request list" where
  "search_phase_single net ev task hist =
     (case SERPAPI_API_KEY ev of
        None \<Rightarrow> (None, hist)
      | Some apiKey \<Rightarrow>
          if apiKey = [] then (None, hist)
          else
            (let rq = (serp_url ''5'' apiKey
                         (task @ '' requirements best practices checklist steps plan''),
                       JUndefined) in
             case net hist rq of
               Rejected \<Rightarrow> (None, hist @ [rq])
             | Responded res \<Rightarrow>
                 if ok res then
                   (case r_json res of
                      None \<Rightarrow> (None, hist @ [rq])
                    | Some data \<Rightarrow>
                        (case and_then (get_prop data ''organic_results'') (\<lambda>rs.
                                case js_or rs (JArr []) of
                                  JArr xs \<Rightarrow> map_idx (\<lambda>i. organic_result) 0 (take 5 xs)
                                | _ \<Rightarrow> Inl TypeError) of
                           Inl e \<Rightarrow> (None, hist @ [rq])
                         | Inr results \<Rightarrow>
                             if results \<noteq> [] then (Some results, hist @ [rq])
                             else (None, hist @ [rq])))
                 else (None, hist @ [rq])))"

definition webSearch_single ::
  "network \<Rightarrow> env \<Rightarrow> string \<Rightarrow> request list \<Rightarrow> search_result list \<times> request list" where
  "webSearch_single net ev task hist =
     (case search_phase_single net ev task hist of
        (Some results, hist') \<Rightarrow> (results, hist')
      | (None, hist') \<Rightarrow> wiki_fallback net task hist')"

section \<open>Page Fetcher: \<^verbatim>\<open>fetchPages\<close>\<close>

record page =
  p_title :: jsval
  p_url :: jsval
  p_text :: string

text \<open>Each result is fetched inside its own \<^verbatim>\<open>try\<close>; a failure skips the result.
  \<^verbatim>\<open>fetch\<close> converts its first argument to a string.\<close>

fun fetchPages ::
  "engine \<Rightarrow> network \<Rightarrow> search_result list \<Rightarrow> request list \<Rightarrow> page list \<times> request list" where
  "fetchPages E net [] hist = ([], hist)"
| "fetchPages E net (r # results) hist =
     (let rq = (to_string E (sr_link r), JObj [(''redirect'', JStr ''follow'')]);
          rest = fetchPages E net results (hist @ [rq]) in
      case net hist rq of
        Rejected \<Rightarrow> rest
      | Responded resp \<Rightarrow>
          if \<not> ok resp then rest
          else
            (case r_text resp of
               None \<Rightarrow> rest
             | Some html \<Rightarrow>
                 (case stripHtml (JStr html) of
                    Inl e \<Rightarrow> rest
                  | Inr stripped \<Rightarrow>
                      (\<lparr>p_title = sr_title r, p_url = sr_link r, p_text = take 10000 stripped\<rparr>
                         # fst rest,
                       snd rest))))"

section \<open>Prompt Composer: \<^verbatim>\<open>buildPrompt\<close>\<close>

text \<open>The prompt is a template literal with two holes, the task and the context.
  Its fixed text (which differs between the two copies of the file and holds
  characters beyond code unit 255) is a parameter: the text before the task,
  between the task and the context, and after the context.\<close>

record template =
  before_task :: string
  before_context :: string
  after_context :: string

definition source_block :: "engine \<Rightarrow> nat \<Rightarrow> page \<Rightarrow> string" where
  "source_block E i p =
     ''Source '' @ show_nat (i + 1) @ '': '' @ to_string E (p_title p) @
     '' ('' @ to_string E (p_url p) @ '')'' @ [CHR 0x0A] @ take 2500 (p_text p)"

definition context_of :: "engine \<Rightarrow> page list \<Rightarrow> string" where
  "context_of E pages =
     (if length pages > 0
      then join [CHR 0x0A, CHR 0x0A]
             (map (\<lambda>ip. source_block E (fst ip) (snd ip)) (enumerate 0 (take 3 pages)))
      else [])"

definition buildPrompt :: "engine \<Rightarrow> template \<Rightarrow> string \<Rightarrow> page list \<Rightarrow> string" where
  "buildPrompt E tm task pages =
     before_task tm @ task @ before_context tm @
     (if context_of E pages \<noteq> [] then context_of E pages else ''(no web context provided)'') @
     after_context tm"

section \<open>Completion Provider\<close>

definition nullish :: "jsval \<Rightarrow> bool" where
  "nullish v = (v = JNull \<or> v = JUndefined)"

definition ANTHROPIC_API_URL :: string where
  "ANTHROPIC_API_URL = ''https://api.anthropic.com/v1/messages''"

definition OPENAI_CHAT_URL :: string where
  "OPENAI_CHAT_URL = ''https://api.openai.com/v1/chat/completions''"

definition anthropic_request :: "string \<Rightarrow> string \<Rightarrow> request" where
  "anthropic_request apiKey prompt =
     (ANTHROPIC_API_URL,
      JObj [(''method'', JStr ''POST''),
            (''headers'', JObj [(''content-type'', JStr ''application/json''),
                               (''x-api-key'', JStr apiKey),
                               (''anthropic-version'', JStr ''2023-06-01'')]),
            (''body'', JObj [(''model'', JStr ''claude-3-5-sonnet-20240620''),
                            (''max_tokens'', JNum (Fin 2000)),
                            (''temperature'', JNum (Fin (2 / 10))),
                            (''messages'', JArr [JObj [(''role'', JStr ''user''),
                                                      (''content'', JStr prompt)]])])])"

definition openai_request :: "string \<Rightarrow> string \<Rightarrow> request" where
  "openai_request apiKey prompt =
     (OPENAI_CHAT_URL,
      JObj [(''method'', JStr ''POST''),
            (''headers'', JObj [(''content-type'', JStr ''application/json''),
                               (''Authorization'', JStr (''Bearer '' @ apiKey))]),
            (''body'', JObj [(''model'', JStr ''gpt-4o-mini''),
                            (''temperature'', JNum (Fin (2 / 10))),
                            (''response_format'', JObj [(''type'', JStr ''json_object'')]),
                            (''messages'',
                             JArr [JObj [(''role'', JStr ''system''),
                                         (''content'', JStr
                                            ''You are an expert planner. Respond ONLY with strict JSON per user instructions.'')],
                                   JObj [(''role'', JStr ''user''),
                                         (''content'', JStr prompt)]])])])"

text \<open>What both calls do with the response: a response that is not \<^verbatim>\<open>ok\<close> is
  thrown as an error that names the provider, the status and the body.\<close>

definition completion ::
  "network \<Rightarrow> string \<Rightarrow> request \<Rightarrow> (jsval \<Rightarrow> js_error + jsval) \<Rightarrow> request list \<Rightarrow>
   (js_error + jsval) \<times> request list" where
  "completion net name rq content hist =
     (case net hist rq of
        Rejected \<Rightarrow> (Inl NetworkError, hist @ [rq])
      | Responded res \<Rightarrow>
          if \<not> ok res then
            (case r_text res of
               None \<Rightarrow> (Inl NetworkError, hist @ [rq])
             | Some body \<Rightarrow>
                 (Inl (Error (name @ '' error: '' @ show_nat (r_status res) @ '' '' @ body)),
                  hist @ [rq]))
          else
            (case r_json res of
               None \<Rightarrow> (Inl SyntaxError, hist @ [rq])
             | Some data \<Rightarrow> (content data, hist @ [rq])))"

text \<open>\<^verbatim>\<open>(data.content && data.content[0] && data.content[0].text) || ""\<close>\<close>

definition anthropic_content :: "jsval \<Rightarrow> js_error + jsval" where
  "anthropic_content data =
     and_then (get_prop data ''content'') (\<lambda>c.
       if \<not> truthy c then Inr (js_or c (JStr []))
       else if \<not> truthy (index0 c) then Inr (js_or (index0 c) (JStr []))
       else and_then (get_prop (index0 c) ''text'') (\<lambda>x. Inr (js_or x (JStr []))))"

text \<open>\<^verbatim>\<open>data.choices?.[0]?.message?.content || ""\<close>\<close>

definition openai_content :: "jsval \<Rightarrow> js_error + jsval" where
  "openai_content data =
     and_then (get_prop data ''choices'') (\<lambda>c.
       Inr (js_or
         (if nullish c then JUndefined
          else if nullish (index0 c) then JUndefined
          else opt_prop (opt_prop (index0 c) ''message'') ''content'')
         (JStr [])))"

definition callAnthropic ::
  "network \<Rightarrow> env \<Rightarrow> string \<Rightarrow> request list \<Rightarrow> (js_error + jsval) \<times> request list" where
  "callAnthropic net ev prompt hist =
     (case ANTHROPIC_API_KEY ev of
        None \<Rightarrow> (Inl (Error ''Missing ANTHROPIC_API_KEY env var''), hist)
      | Some apiKey \<Rightarrow>
          if apiKey = [] then (Inl (Error ''Missing ANTHROPIC_API_KEY env var''), hist)
          else completion net ''Anthropic'' (anthropic_request apiKey prompt) anthropic_content hist)"

definition callOpenAI ::
  "network \<Rightarrow> env \<Rightarrow> string \<Rightarrow> request list \<Rightarrow> (js_error + jsval) \<times> request list" where
  "callOpenAI net ev prompt hist =
     (case OPENAI_API_KEY ev of
        None \<Rightarrow> (Inl (Error ''Missing OPENAI_API_KEY env var''), hist)
      | Some apiKey \<Rightarrow>
          if apiKey = [] then (Inl (Error ''Missing OPENAI_API_KEY env var''), hist)
          else completion net ''OpenAI'' (openai_request apiKey prompt) openai_content hist)"

section \<open>Request Handler: \<^verbatim>\<open>module.exports\<close>\<close>

record http_request =
  rq_method :: string
  rq_body :: jsval

text \<open>The body of the reply: \<open>ErrorMessage m\<close> is \<^verbatim>\<open>{error: m}\<close>; \<open>ErrorOf e\<close> is
  \<^verbatim>\<open>{error: err.message || "Internal error"}\<close> for the caught exception \<open>e\<close>;
  \<open>Success b s u\<close> is \<^verbatim>\<open>{breakdown: b, sources: s, meta: {usedWebResearch: u}}\<close>,
  each source a pair of title and url.\<close>

datatype reply_body =
    ErrorMessage string
  | ErrorOf js_error
  | Success "microtask list" "(jsval \<times> jsval) list" bool

type_synonym reply = "nat \<times> reply_body"

definition missing_task :: string where
  "missing_task = ''Missing '' @ [CHR 0x27] @ ''task'' @ [CHR 0x27] @ '' in request body''"

text \<open>The part of the handler inside \<^verbatim>\<open>try\<close>, after the task is known to be a
  non-empty string. The search function is a parameter, since the two copies of
  the file differ in it.\<close>

definition research_and_complete ::
  "(network \<Rightarrow> env \<Rightarrow> string \<Rightarrow> request list \<Rightarrow> search_result list \<times> request list) \<Rightarrow>
   engine \<Rightarrow> template \<Rightarrow> network \<Rightarrow> env \<Rightarrow> string \<Rightarrow> request list \<Rightarrow> reply \<times> request list" where
  "research_and_complete search E tm net ev task hist =
     (let (results, hist1) = search net ev task hist;
          (pages, hist2) = (if length results \<noteq> 0 then fetchPages E net results hist1
                            else ([], hist1));
          prompt = buildPrompt E tm task pages;
          (raw, hist3) = (if configured (OPENAI_API_KEY ev) then callOpenAI net ev prompt hist2
                          else callAnthropic net ev prompt hist2)
      in
        case and_then raw (\<lambda>r.
             and_then (safeParseJson E r) (\<lambda>parsed.
               normalize E (microTasks_of parsed))) of
          Inl e \<Rightarrow> ((500, ErrorOf e), hist3)
        | Inr normalized \<Rightarrow>
            ((200, Success normalized
                     (map (\<lambda>r. (sr_title r, sr_link r)) results)
                     (length pages > 0)),
             hist3))"

definition handler_with ::
  "(network \<Rightarrow> env \<Rightarrow> string \<Rightarrow> request list \<Rightarrow> search_result list \<times> request list) \<Rightarrow>
   engine \<Rightarrow> template \<Rightarrow> network \<Rightarrow> env \<Rightarrow> http_request \<Rightarrow> request list \<Rightarrow>
   reply \<times> request list" where
  "handler_with search E tm net ev req hist =
     (if rq_method req \<noteq> ''POST'' then ((405, ErrorMessage ''Method not allowed''), hist)
      else
        case get_prop (js_or (rq_body req) (JObj [])) ''task'' of
          Inl e \<Rightarrow> ((500, ErrorOf e), hist)
        | Inr task \<Rightarrow>
            (case task of
               JStr s \<Rightarrow>
                 if \<not> truthy task then ((400, ErrorMessage missing_task), hist)
                 else research_and_complete search E tm net ev s hist
             | _ \<Rightarrow> ((400, ErrorMessage missing_task), hist)))"

text \<open>The handler of \<^verbatim>\<open>src/api/research-breakdown.js\<close> and the handler of
  \<^verbatim>\<open>src/unnamed/part_000\<close>.\<close>

definition handler ::
  "engine \<Rightarrow> template \<Rightarrow> network \<Rightarrow> env \<Rightarrow> http_request \<Rightarrow> request list \<Rightarrow> reply \<times> request list" where
  "handler = handler_with webSearch"

definition handler_single ::
  "engine \<Rightarrow> template \<Rightarrow> network \<Rightarrow> env \<Rightarrow> http_request \<Rightarrow> request list \<Rightarrow> reply \<times> request list" where
  "handler_single = handler_with webSearch_single"

section \<open>The claims' own words\<close>


definition brace_delimited :: "string \<Rightarrow> bool" where
  "brace_delimited m = (2 \<le> length m \<and> hd m = CHR ''{'' \<and> last m = CHR ''}'')"


section \<open>An engine for the examples\<close>

text \<open>The examples below need a concrete engine. Its \<^verbatim>\<open>JSON.parse\<close> is a table: it
  holds every text of valid JSON that an example parses, and every other text
  that an example parses is not JSON, so that on the examples the table agrees
  with \<^verbatim>\<open>JSON.parse\<close>. Its printing of numbers is the decimal form of an integer;
  no example prints another number.\<close>

definition tasks_json :: string where
  "tasks_json = ''{'' @ [CHR 0x22] @ ''microTasks'' @ [CHR 0x22] @ '':[{}]}''"

definition sample_parse :: "string \<Rightarrow> jsval option" where
  "sample_parse =
     map_of [(''{}'', JObj []),
             (tasks_json, JObj [(''microTasks'', JArr [JObj []])])]"

definition sample_number_to_string :: "jsnum \<Rightarrow> string" where
  "sample_number_to_string n =
     (case n of
        NaN \<Rightarrow> ''NaN''
      | PosInf \<Rightarrow> ''Infinity''
      | NegInf \<Rightarrow> ''-Infinity''
      | Fin q \<Rightarrow> (if q < 0 then ''-'' else []) @ show_nat (nat \<lfloor>\<bar>q\<bar>\<rfloor>))"

definition sample_engine :: engine where
  "sample_engine =
     \<lparr>JSON_parse = sample_parse, number_to_string = sample_number_to_string\<rparr>"


definition no_key_env :: env where
  "no_key_env = \<lparr>SERPAPI_API_KEY = None, OPENAI_API_KEY = None, ANTHROPIC_API_KEY = Some ''a''\<rparr>"

definition json_response :: "jsval \<Rightarrow> response" where
  "json_response v = \<lparr>r_status = 200, r_json = Some v, r_text = None\<rparr>"






text \<open>A template for the examples (the text around the two holes as in
  \<^verbatim>\<open>src/api/research-breakdown.js\<close>, the text after the context cut after its first
  line), and a network that answers by position: the encyclopedia with two
  hits, the first page, a rejected second page, and the completion.\<close>

definition sample_template :: template where
  "sample_template =
     \<lparr>before_task =
        ''You are an expert project planner and researcher. Create a precise, actionable micro-task plan that reflects real-world best practices and current industry standards.'' @
        [CHR 0x0A, CHR 0x0A] @ ''Primary task: '' @ [CHR 0x22],
      before_context =
        [CHR 0x22, CHR 0x0A, CHR 0x0A] @
        ''Use the following web context (if any) to inform the plan:'' @ [CHR 0x0A],
      after_context =
        [CHR 0x0A, CHR 0x0A] @ ''Return ONLY valid JSON matching this TypeScript type:''\<rparr>"

definition party_net :: network where
  "party_net hist rq =
     (if length hist = 0 then
        Responded (json_response (JObj [(''query'', JObj [(''search'',
          JArr [JObj [(''title'', JStr ''Party'')], JObj [(''title'', JStr ''Birthday cake'')]])])]))
      else if length hist = 1 then
        Responded \<lparr>r_status = 200, r_json = None, r_text = Some ''<p>A party</p>''\<rparr>
      else if length hist = 2 then Rejected
      else
        Responded (json_response (JObj [(''content'', JArr [JObj [(''text'', JStr tasks_json)]])])))"

section \<open>Properties of the Text Sanitizer\<close>

lemma after_gt_None: "after_gt s = None \<longleftrightarrow> CHR ''>'' \<notin> set s"
  by (induction s) auto

lemma after_gt_set: "after_gt s = Some r \<Longrightarrow> set r \<subseteq> set s"
  by (induction s) (auto split: if_splits)

lemma tag_end_set: "tag_end s = Some r \<Longrightarrow> set r \<subseteq> set s"
  by (cases s) (auto split: if_splits dest: after_gt_set)

lemma set_replace_tags: "set (replace_tags s) \<subseteq> insert (CHR '' '') (set s)"
proof (induction s rule: replace_tags.induct)
  case 1 show ?case by simp
next
  case (2 c cs)
  show ?case
  proof (cases "c = CHR ''<''")
    case False
    then have "set (replace_tags cs) \<subseteq> insert (CHR '' '') (set cs)" by (rule 2(3))
    with False show ?thesis by simp blast
  next
    case True
    show ?thesis
    proof (cases "tag_end cs")
      case None
      have "set (replace_tags cs) \<subseteq> insert (CHR '' '') (set cs)" using True None by (rule 2(1))
      with True None show ?thesis by simp blast
    next
      case (Some rest)
      have "set (replace_tags rest) \<subseteq> insert (CHR '' '') (set rest)" using True Some by (rule 2(2))
      moreover have "set rest \<subseteq> set cs" using Some by (rule tag_end_set)
      ultimately have "set (replace_tags rest) \<subseteq> insert (CHR '' '') (set cs)" by blast
      with True Some show ?thesis by simp blast
    qed
  qed
qed

lemma tag_end_None_iff:
  "tag_end s = None \<longleftrightarrow> (s = [] \<or> hd s = CHR ''>'' \<or> CHR ''>'' \<notin> set s)"
  by (cases s) (auto simp: after_gt_None)

lemma replace_tags_hd_gt: "replace_tags (CHR ''>'' # cs) = CHR ''>'' # replace_tags cs"
  by simp

lemma replace_tags_Nil_iff: "replace_tags s = [] \<longleftrightarrow> s = []"
  by (cases s) (auto split: option.splits)

lemma tag_end_replace_tags:
  assumes "tag_end cs = None" shows "tag_end (replace_tags cs) = None"
proof -
  from assms consider "cs = []" | cs' where "cs = CHR ''>'' # cs'" | "CHR ''>'' \<notin> set cs"
    unfolding tag_end_None_iff by (cases cs) auto
  then show ?thesis
  proof cases
    case 1 then show ?thesis by simp
  next
    case 2 then show ?thesis by simp
  next
    case 3
    have "CHR ''>'' \<notin> set (replace_tags cs)"
      using 3 set_replace_tags [of cs] by auto
    then show ?thesis unfolding tag_end_None_iff by simp
  qed
qed

lemma no_tag_replace_tags: "\<not> has_tag (replace_tags s)"
proof (induction s rule: replace_tags.induct)
  case 1 show ?case by simp
next
  case (2 c cs)
  show ?case
  proof (cases "c = CHR ''<''")
    case False
    then have "\<not> has_tag (replace_tags cs)" by (rule 2(3))
    with False show ?thesis by simp
  next
    case True
    show ?thesis
    proof (cases "tag_end cs")
      case None
      have "\<not> has_tag (replace_tags cs)" using True None by (rule 2(1))
      moreover have "tag_end (replace_tags cs) = None" using None by (rule tag_end_replace_tags)
      ultimately show ?thesis using True None by simp
    next
      case (Some rest)
      have "\<not> has_tag (replace_tags rest)" using True Some by (rule 2(2))
      with True Some show ?thesis by simp
    qed
  qed
qed

lemma replace_tags_id: "\<not> has_tag s \<Longrightarrow> replace_tags s = s"
  by (induction s) auto

lemma has_tag_append_left: "has_tag ys \<Longrightarrow> has_tag (xs @ ys)"
  by (induction xs) auto

lemma after_gt_append: "after_gt xs = Some r \<Longrightarrow> after_gt (xs @ ys) = Some (r @ ys)"
  by (induction xs) (auto split: if_splits)

lemma tag_end_append: "tag_end xs = Some r \<Longrightarrow> tag_end (xs @ ys) = Some (r @ ys)"
  by (cases xs) (auto simp: after_gt_append split: if_splits)

lemma has_tag_append_right: "has_tag xs \<Longrightarrow> has_tag (xs @ ys)"
  by (induction xs) (auto simp: tag_end_append)

lemma trim_decomp: "\<exists>pre post. s = pre @ trim s @ post"
proof -
  let ?u = "dropWhile is_space s"
  have "s = takeWhile is_space s @ ?u" by simp
  moreover have "rev ?u = takeWhile is_space (rev ?u) @ dropWhile is_space (rev ?u)" by simp
  then have "?u = trim s @ rev (takeWhile is_space (rev ?u))"
    unfolding trim_def by (metis rev_append rev_rev_ident)
  ultimately have "s = takeWhile is_space s @ trim s @ rev (takeWhile is_space (rev ?u))" by simp
  then show ?thesis by blast
qed

lemma no_tag_trim: "\<not> has_tag s \<Longrightarrow> \<not> has_tag (trim s)"
  using trim_decomp [of s] has_tag_append_left has_tag_append_right by metis

lemma set_collapse_ws: "set (collapse_ws s) \<subseteq> insert (CHR '' '') (set s)"
proof (induction s rule: collapse_ws.induct)
  case 1 show ?case by simp
next
  case (2 c cs)
  show ?case
  proof (cases "is_space c")
    case True
    then have "set (collapse_ws (dropWhile is_space cs)) \<subseteq> insert (CHR '' '') (set (dropWhile is_space cs))"
      by (rule 2(1))
    moreover have "set (dropWhile is_space cs) \<subseteq> set cs"
      by (auto dest: set_dropWhileD)
    ultimately have "set (collapse_ws (dropWhile is_space cs)) \<subseteq> insert (CHR '' '') (set cs)" by blast
    with True show ?thesis by simp blast
  next
    case False
    then have "set (collapse_ws cs) \<subseteq> insert (CHR '' '') (set cs)" by (rule 2(2))
    with False show ?thesis by simp blast
  qed
qed

lemma not_space_gt: "\<not> is_space (CHR ''>'')" "\<not> is_space (CHR ''<'')" "is_space (CHR '' '')"
  by (simp_all add: is_space_def)

lemma tag_end_collapse_ws:
  assumes "tag_end cs = None" shows "tag_end (collapse_ws cs) = None"
proof -
  from assms consider "cs = []" | cs' where "cs = CHR ''>'' # cs'" | "CHR ''>'' \<notin> set cs"
    unfolding tag_end_None_iff by (cases cs) auto
  then show ?thesis
  proof cases
    case 1 then show ?thesis by simp
  next
    case 2 then show ?thesis by (simp add: not_space_gt)
  next
    case 3
    have "CHR ''>'' \<notin> set (collapse_ws cs)"
      using 3 set_collapse_ws [of cs] by auto
    then show ?thesis unfolding tag_end_None_iff by simp
  qed
qed

lemma has_tag_dropWhile: "has_tag (dropWhile P s) \<Longrightarrow> has_tag s"
  using has_tag_append_left [of "dropWhile P s" "takeWhile P s"] by simp

lemma no_tag_collapse_ws: "\<not> has_tag s \<Longrightarrow> \<not> has_tag (collapse_ws s)"
proof (induction s rule: collapse_ws.induct)
  case 1 show ?case by simp
next
  case (2 c cs)
  show ?case
  proof (cases "is_space c")
    case True
    from 2(3) have "\<not> has_tag cs" by simp
    then have "\<not> has_tag (dropWhile is_space cs)" using has_tag_dropWhile by blast
    with True have "\<not> has_tag (collapse_ws (dropWhile is_space cs))" by (rule 2(1))
    with True show ?thesis by simp
  next
    case False
    from 2(3) have a: "\<not> has_tag cs" by simp
    with False have b: "\<not> has_tag (collapse_ws cs)" by (rule 2(2))
    from 2(3) have "c = CHR ''<'' \<Longrightarrow> tag_end cs = None" by simp
    then have "c = CHR ''<'' \<Longrightarrow> tag_end (collapse_ws cs) = None" by (simp add: tag_end_collapse_ws)
    with False b show ?thesis by auto
  qed
qed

lemma collapse_ws_hd: "\<not> is_space d \<Longrightarrow> collapse_ws (d # ds) = d # collapse_ws ds"
  by simp

lemma norm_ws_collapse_ws: "norm_ws (collapse_ws s)"
proof (induction s rule: collapse_ws.induct)
  case 1 show ?case by simp
next
  case (2 c cs)
  show ?case
  proof (cases "is_space c")
    case True
    then have ih: "norm_ws (collapse_ws (dropWhile is_space cs))" by (rule 2(1))
    have "case collapse_ws (dropWhile is_space cs) of [] \<Rightarrow> True | d # ds \<Rightarrow> \<not> is_space d"
    proof (cases "dropWhile is_space cs")
      case Nil then show ?thesis by (simp only: collapse_ws.simps list.case)
    next
      case (Cons d ds)
      then have "\<not> is_space d" by (metis hd_dropWhile list.sel(1) list.distinct(1))
      with Cons show ?thesis by simp
    qed
    with True ih show ?thesis by (simp add: not_space_gt)
  next
    case False
    then have "norm_ws (collapse_ws cs)" by (rule 2(2))
    with False show ?thesis by simp
  qed
qed

lemma collapse_ws_id: "norm_ws s \<Longrightarrow> collapse_ws s = s"
proof (induction s)
  case Nil show ?case by simp
next
  case (Cons c cs)
  then have ih: "collapse_ws cs = cs" by simp
  show ?case
  proof (cases "is_space c")
    case False with ih show ?thesis by simp
  next
    case True
    with Cons.prems have c: "c = CHR '' ''" and n: "case cs of [] \<Rightarrow> True | d # ds \<Rightarrow> \<not> is_space d" by simp_all
    from n have "dropWhile is_space cs = cs" by (cases cs) simp_all
    with True c ih show ?thesis by simp
  qed
qed

lemma norm_ws_append_right: "norm_ws (xs @ ys) \<Longrightarrow> norm_ws ys"
  by (induction xs) auto

lemma norm_ws_append_left: "norm_ws (xs @ ys) \<Longrightarrow> norm_ws xs"
proof (induction xs)
  case Nil show ?case by simp
next
  case (Cons c cs)
  then have "norm_ws cs" by simp
  moreover have "is_space c \<Longrightarrow> c = CHR '' '' \<and> (case cs of [] \<Rightarrow> True | d # ds \<Rightarrow> \<not> is_space d)"
    using Cons.prems by (cases cs) (simp_all split: if_splits)
  ultimately show ?case by simp
qed

lemma norm_ws_trim: "norm_ws s \<Longrightarrow> norm_ws (trim s)"
  using trim_decomp [of s] norm_ws_append_left norm_ws_append_right by metis


lemma dropWhile_id_hd: "s = [] \<or> \<not> P (hd s) \<Longrightarrow> dropWhile P s = s"
  by (cases s) auto

lemma trim_trim: "trim (trim s) = trim s"
proof -
  let ?u = "dropWhile is_space s"
  let ?v = "dropWhile is_space (rev ?u)"
  have t: "trim s = rev ?v" by (simp add: trim_def)
  have u: "?u = [] \<or> \<not> is_space (hd ?u)" by (metis hd_dropWhile)
  have "rev ?v = [] \<or> \<not> is_space (hd (rev ?v))"
  proof (cases "?v = []")
    case True then show ?thesis by simp
  next
    case False
    have "rev ?u = takeWhile is_space (rev ?u) @ ?v" by simp
    then have "?u = rev ?v @ rev (takeWhile is_space (rev ?u))" by (metis rev_append rev_rev_ident)
    then have "hd ?u = hd (rev ?v)" using False by (metis hd_append2 rev_is_Nil_conv)
    moreover have "?u \<noteq> []" using False by (metis dropWhile.simps(1) rev.simps(1))
    ultimately show ?thesis using u by metis
  qed
  then have "dropWhile is_space (rev ?v) = rev ?v" by (rule dropWhile_id_hd)
  then have "trim (rev ?v) = rev (dropWhile is_space ?v)" by (simp add: trim_def)
  also have "\<dots> = rev ?v" by (simp add: dropWhile_idem)
  finally show ?thesis by (simp add: t)
qed

lemma to_lower_gt: "to_lower x = CHR ''>'' \<Longrightarrow> x = CHR ''>''"
proof (cases "map_of (zip ''ABCDEFGHIJKLMNOPQRSTUVWXYZ'' ''abcdefghijklmnopqrstuvwxyz'') x")
  case None
  assume "to_lower x = CHR ''>''"
  with None show ?thesis by (simp add: to_lower_def)
next
  case (Some l)
  assume a: "to_lower x = CHR ''>''"
  from Some have "(x, l) \<in> set (zip ''ABCDEFGHIJKLMNOPQRSTUVWXYZ'' ''abcdefghijklmnopqrstuvwxyz'')"
    by (rule map_of_SomeD)
  then have "l \<in> set ''abcdefghijklmnopqrstuvwxyz''" by (rule set_zip_rightD)
  then have "l \<noteq> CHR ''>''" by auto
  with a Some show ?thesis by (simp add: to_lower_def)
qed

lemma starts_ci_set: "starts_ci p t \<Longrightarrow> q \<in> set p \<Longrightarrow> \<exists>x\<in>set t. to_lower x = q"
  by (induction p t rule: starts_ci.induct) auto

lemma after_first_ci_set:
  "after_first_ci p t = Some r \<Longrightarrow> q \<in> set p \<Longrightarrow> \<exists>x\<in>set t. to_lower x = q"
proof (induction t)
  case Nil then show ?case by (simp split: if_splits)
next
  case (Cons c cs)
  show ?case
  proof (cases "starts_ci p (c # cs)")
    case True
    then show ?thesis using Cons.prems(2) by (rule starts_ci_set)
  next
    case False
    with Cons.prems have "after_first_ci p cs = Some r" by simp
    then have "\<exists>x\<in>set cs. to_lower x = q" using Cons.prems(2) by (rule Cons.IH)
    then show ?thesis by auto
  qed
qed

lemma after_first_ci_gt:
  assumes "CHR ''>'' \<in> set cl" "CHR ''>'' \<notin> set t"
  shows "after_first_ci cl t = None"
proof (cases "after_first_ci cl t")
  case None then show ?thesis .
next
  case (Some r)
  then obtain x where "x \<in> set t" "to_lower x = CHR ''>''"
    using assms(1) after_first_ci_set by blast
  then have "CHR ''>'' \<in> set t" using to_lower_gt by blast
  with assms(2) show ?thesis by simp
qed

lemma replace_block_id:
  assumes cl: "CHR ''>'' \<in> set cl" and name: "name \<noteq> []" "hd name \<noteq> CHR ''>''"
  shows "\<not> has_tag s \<Longrightarrow> replace_block name cl s = s"
proof (induction s)
  case Nil show ?case by simp
next
  case (Cons c cs)
  then have ih: "replace_block name cl cs = cs" by simp
  show ?case
  proof (cases "c = CHR ''<'' \<and> starts_ci name cs")
    case False with ih show ?thesis by auto
  next
    case True
    then obtain x xs where cs: "cs = x # xs" and x: "to_lower x = hd name"
      using name(1) by (cases name; cases cs) auto
    have "x \<noteq> CHR ''>''" using x name(2) by (auto simp: to_lower_def)
    with cs have "tag_end cs = after_gt xs" by simp
    moreover have "tag_end cs = None" using Cons.prems True by simp
    ultimately have "after_gt xs = None" by simp
    then have "CHR ''>'' \<notin> set xs" by (simp add: after_gt_None)
    with \<open>x \<noteq> CHR ''>''\<close> cs have "CHR ''>'' \<notin> set cs" by simp
    then have "CHR ''>'' \<notin> set (drop (length name) cs)" by (auto dest: in_set_dropD)
    with cl have "after_first_ci cl (drop (length name) cs) = None" by (rule after_first_ci_gt)
    with True ih show ?thesis by simp
  qed
qed

lemma strip_text_facts:
  "\<not> has_tag (strip_text s)" "norm_ws (strip_text s)" "trim (strip_text s) = strip_text s"
  unfolding strip_text_def
  by (simp_all add: no_tag_trim no_tag_collapse_ws no_tag_replace_tags norm_ws_trim
      norm_ws_collapse_ws trim_trim)

lemma strip_text_fixed:
  assumes "\<not> has_tag t" "norm_ws t" "trim t = t"
  shows "strip_text t = t"
proof -
  have "replace_block ''script'' ''</script>'' t = t"
    using assms(1) by (intro replace_block_id) simp_all
  moreover have "replace_block ''style'' ''</style>'' t = t"
    using assms(1) by (intro replace_block_id) simp_all
  moreover have "replace_tags t = t" using assms(1) by (rule replace_tags_id)
  moreover have "collapse_ws t = t" using assms(2) by (rule collapse_ws_id)
  ultimately show ?thesis using assms(3) by (simp add: strip_text_def)
qed

lemma strip_text_idem: "strip_text (strip_text s) = strip_text s"
  by (intro strip_text_fixed strip_text_facts)

lemma after_gt_Some_iff:
  "after_gt s = Some r \<longleftrightarrow> (\<exists>m. s = m @ CHR ''>'' # r \<and> CHR ''>'' \<notin> set m)"
proof (induction s)
  case Nil show ?case by simp
next
  case (Cons c cs)
  show ?case
  proof (cases "c = CHR ''>''")
    case True
    have "(\<exists>m. c # cs = m @ CHR ''>'' # r \<and> CHR ''>'' \<notin> set m) \<longleftrightarrow> cs = r"
    proof
      assume "\<exists>m. c # cs = m @ CHR ''>'' # r \<and> CHR ''>'' \<notin> set m"
      then obtain m where m: "c # cs = m @ CHR ''>'' # r" "CHR ''>'' \<notin> set m" by blast
      with True have "m = []" by (cases m) auto
      with m show "cs = r" by simp
    next
      assume "cs = r" with True show "\<exists>m. c # cs = m @ CHR ''>'' # r \<and> CHR ''>'' \<notin> set m"
        by (intro exI [of _ "[]"]) simp
    qed
    with True show ?thesis by auto
  next
    case False
    have "(\<exists>m. c # cs = m @ CHR ''>'' # r \<and> CHR ''>'' \<notin> set m) \<longleftrightarrow>
          (\<exists>m. cs = m @ CHR ''>'' # r \<and> CHR ''>'' \<notin> set m)"
    proof
      assume "\<exists>m. c # cs = m @ CHR ''>'' # r \<and> CHR ''>'' \<notin> set m"
      then obtain m where m: "c # cs = m @ CHR ''>'' # r" "CHR ''>'' \<notin> set m" by blast
      with False obtain m' where "m = c # m'" by (cases m) auto
      with m show "\<exists>m. cs = m @ CHR ''>'' # r \<and> CHR ''>'' \<notin> set m" by auto
    next
      assume "\<exists>m. cs = m @ CHR ''>'' # r \<and> CHR ''>'' \<notin> set m"
      then obtain m where m: "cs = m @ CHR ''>'' # r" "CHR ''>'' \<notin> set m" by blast
      with False show "\<exists>m. c # cs = m @ CHR ''>'' # r \<and> CHR ''>'' \<notin> set m"
        by (intro exI [of _ "c # m"]) simp
    qed
    with False Cons show ?thesis by simp
  qed
qed

lemma tag_end_Some_iff:
  "tag_end s = Some r \<longleftrightarrow> (\<exists>m. m \<noteq> [] \<and> s = m @ CHR ''>'' # r \<and> CHR ''>'' \<notin> set m)"
proof (cases s)
  case Nil then show ?thesis by simp
next
  case (Cons c cs)
  show ?thesis
  proof (cases "c = CHR ''>''")
    case True
    have "\<not> (\<exists>m. m \<noteq> [] \<and> c # cs = m @ CHR ''>'' # r \<and> CHR ''>'' \<notin> set m)"
    proof
      assume "\<exists>m. m \<noteq> [] \<and> c # cs = m @ CHR ''>'' # r \<and> CHR ''>'' \<notin> set m"
      then obtain m where m: "m \<noteq> []" "c # cs = m @ CHR ''>'' # r" "CHR ''>'' \<notin> set m" by blast
      then obtain m' where "m = c # m'" by (cases m) auto
      with m True show False by simp
    qed
    with True Cons show ?thesis by simp
  next
    case False
    have "(\<exists>m. m \<noteq> [] \<and> c # cs = m @ CHR ''>'' # r \<and> CHR ''>'' \<notin> set m) \<longleftrightarrow>
          (\<exists>m. cs = m @ CHR ''>'' # r \<and> CHR ''>'' \<notin> set m)"
    proof
      assume "\<exists>m. m \<noteq> [] \<and> c # cs = m @ CHR ''>'' # r \<and> CHR ''>'' \<notin> set m"
      then obtain m where m: "m \<noteq> []" "c # cs = m @ CHR ''>'' # r" "CHR ''>'' \<notin> set m" by blast
      then obtain m' where "m = c # m'" by (cases m) auto
      with m show "\<exists>m. cs = m @ CHR ''>'' # r \<and> CHR ''>'' \<notin> set m" by auto
    next
      assume "\<exists>m. cs = m @ CHR ''>'' # r \<and> CHR ''>'' \<notin> set m"
      then obtain m where m: "cs = m @ CHR ''>'' # r" "CHR ''>'' \<notin> set m" by blast
      with False show "\<exists>m. m \<noteq> [] \<and> c # cs = m @ CHR ''>'' # r \<and> CHR ''>'' \<notin> set m"
        by (intro exI [of _ "c # m"]) simp
    qed
    with False Cons show ?thesis by (simp add: after_gt_Some_iff)
  qed
qed

text \<open>\<open>has_tag\<close> says exactly that the pattern \<^verbatim>\<open><[^>]+>\<close> matches somewhere, and
  \<open>ws_run\<close> that two white-space characters are adjacent.\<close>

lemma has_tag_iff:
  "has_tag s \<longleftrightarrow>
     (\<exists>pre m post. s = pre @ CHR ''<'' # m @ CHR ''>'' # post \<and> m \<noteq> [] \<and> CHR ''>'' \<notin> set m)"
proof
  show "has_tag s \<Longrightarrow> \<exists>pre m post. s = pre @ CHR ''<'' # m @ CHR ''>'' # post \<and> m \<noteq> [] \<and> CHR ''>'' \<notin> set m"
  proof (induction s)
    case Nil then show ?case by simp
  next
    case (Cons c cs)
    show ?case
    proof (cases "c = CHR ''<'' \<and> tag_end cs \<noteq> None")
      case True
      then obtain r where "tag_end cs = Some r" by auto
      then obtain m where "m \<noteq> []" "cs = m @ CHR ''>'' # r" "CHR ''>'' \<notin> set m"
        unfolding tag_end_Some_iff by blast
      with True have "c # cs = [] @ CHR ''<'' # m @ CHR ''>'' # r \<and> m \<noteq> [] \<and> CHR ''>'' \<notin> set m" by simp
      then show ?thesis by blast
    next
      case False
      with Cons.prems have "has_tag cs" by auto
      then obtain pre m post where "cs = pre @ CHR ''<'' # m @ CHR ''>'' # post" "m \<noteq> []" "CHR ''>'' \<notin> set m"
        using Cons.IH by blast
      then have "c # cs = (c # pre) @ CHR ''<'' # m @ CHR ''>'' # post \<and> m \<noteq> [] \<and> CHR ''>'' \<notin> set m" by simp
      then show ?thesis by blast
    qed
  qed
next
  assume "\<exists>pre m post. s = pre @ CHR ''<'' # m @ CHR ''>'' # post \<and> m \<noteq> [] \<and> CHR ''>'' \<notin> set m"
  then obtain pre m post where s: "s = pre @ CHR ''<'' # m @ CHR ''>'' # post" and m: "m \<noteq> []" "CHR ''>'' \<notin> set m"
    by blast
  from m have "tag_end (m @ CHR ''>'' # post) = Some post" unfolding tag_end_Some_iff by blast
  then have "has_tag (CHR ''<'' # m @ CHR ''>'' # post)" by simp
  then show "has_tag s" unfolding s by (rule has_tag_append_left)
qed

lemma ws_run_iff:
  "ws_run s \<longleftrightarrow> (\<exists>pre a b post. s = pre @ a # b # post \<and> is_space a \<and> is_space b)"
proof
  show "ws_run s \<Longrightarrow> \<exists>pre a b post. s = pre @ a # b # post \<and> is_space a \<and> is_space b"
  proof (induction s rule: ws_run.induct)
    case (1 a b cs)
    show ?case
    proof (cases "is_space a \<and> is_space b")
      case True
      then have "a # b # cs = [] @ a # b # cs \<and> is_space a \<and> is_space b" by simp
      then show ?thesis by blast
    next
      case False
      with 1 obtain pre x y post where "b # cs = pre @ x # y # post" "is_space x" "is_space y" by auto
      then have "a # b # cs = (a # pre) @ x # y # post \<and> is_space x \<and> is_space y" by simp
      then show ?thesis by blast
    qed
  qed simp_all
next
  have aux: "is_space a \<Longrightarrow> is_space b \<Longrightarrow> ws_run (pre @ a # b # post)" for pre a b post
  proof (induction pre)
    case Nil then show ?case by simp
  next
    case (Cons p ps)
    then have "ws_run (ps @ a # b # post)" by simp
    then show ?case by (cases "ps @ a # b # post") auto
  qed
  assume "\<exists>pre a b post. s = pre @ a # b # post \<and> is_space a \<and> is_space b"
  then show "ws_run s" using aux by blast
qed




text \<open>
  Claim C10. The Text Sanitizer is idempotent: for every input string \<open>s\<close>,
  \<^verbatim>\<open>stripHtml(s)\<close> returns a string \<open>t\<close>, and \<^verbatim>\<open>stripHtml(t)\<close> returns \<open>t\<close> again.
\<close>

theorem stripHtml_idempotent:
  "\<exists>t. stripHtml (JStr s) = Inr t \<and> stripHtml (JStr t) = Inr t"
proof -
  have a: "stripHtml (JStr u) = Inr (strip_text u)" for u
  proof (cases "u = []")
    case True
    then show ?thesis by (simp add: stripHtml_def strip_text_def trim_def)
  next
    case False then show ?thesis by (simp add: stripHtml_def)
  qed
  have "stripHtml (JStr (strip_text s)) = Inr (strip_text s)"
    unfolding a by (simp add: strip_text_idem)
  with a [of s] show ?thesis by simp
qed

text \<open>The theorem at the input \<^verbatim>\<open><i>x</i>  y\<close>.\<close>

theorem stripHtml_idempotent_witness:
  "stripHtml (JStr ''<i>x</i>  y'') = Inr ''x y'' \<and> stripHtml (JStr ''x y'') = Inr ''x y''"
proof -
  have e: "stripHtml (JStr ''<i>x</i>  y'') = Inr ''x y''"
    by (simp add: stripHtml_def strip_text_def trim_def is_space_def to_lower_def)
  from stripHtml_idempotent [of "''<i>x</i>  y''"] show ?thesis unfolding e by simp
qed

section \<open>Properties of the Response Normalizer\<close>





lemma norm_estimatedTime_cases:
  "norm_estimatedTime v =
     (case to_number v of
        NaN \<Rightarrow> Fin 30
      | PosInf \<Rightarrow> Fin 180
      | NegInf \<Rightarrow> Fin 10
      | Fin q \<Rightarrow> if q = 0 then Fin 30 else Fin (max 10 (min 180 q)))"
  by (cases "to_number v")
     (auto simp: norm_estimatedTime_def num_or_def math_max_def math_min_def max_def min_def)



lemma map_idx_Inr:
  "map_idx f i xs = Inr ys \<Longrightarrow>
   length ys = length xs \<and> (\<forall>k<length xs. f (i + k) (xs ! k) = Inr (ys ! k))"
proof (induction xs arbitrary: i ys)
  case Nil then show ?case by simp
next
  case (Cons x xs)
  from Cons.prems obtain y ys' where y: "f i x = Inr y" and r: "map_idx f (Suc i) xs = Inr ys'"
    and ys: "ys = y # ys'"
    by (auto split: sum.splits)
  from Cons.IH [OF r] have l: "length ys' = length xs"
    and e: "\<And>k. k < length xs \<Longrightarrow> f (Suc i + k) (xs ! k) = Inr (ys' ! k)" by auto
  show ?case
  proof (intro conjI allI impI)
    show "length ys = length (x # xs)" using l ys by simp
  next
    fix k assume "k < length (x # xs)"
    then show "f (i + k) ((x # xs) ! k) = Inr (ys ! k)"
      using y e ys by (cases k) auto
  qed
qed






lemma string_to_number_abc: "string_to_number ''abc'' = NaN"
  by (simp add: string_to_number_def trim_def is_space_def signed_literal_def
      unsigned_literal_def mantissa_def is_digit_def radix_value_def digit_of_def to_lower_def)



lemma estimatedTime_examples:
  "norm_estimatedTime (JNum (Fin (- 5))) = Fin 10"
  "norm_estimatedTime (JNum (Fin 999)) = Fin 180"
  "norm_estimatedTime (JStr ''abc'') = Fin 30"
  "norm_estimatedTime (JNum (Fin (25 / 2))) = Fin (25 / 2)"
  "norm_estimatedTime JNull = Fin 30"
  "norm_estimatedTime JUndefined = Fin 30"
  by (simp_all add: norm_estimatedTime_cases string_to_number_abc)








section \<open>Properties of \<^verbatim>\<open>safeParseJson\<close>\<close>

lemma upto_last_brace_Some:
  assumes "upto_last_brace s = Some m"
  shows "\<exists>post. s = m @ post \<and> CHR ''}'' \<notin> set post \<and> m \<noteq> [] \<and> last m = CHR ''}''"
proof -
  let ?P = "\<lambda>c. c \<noteq> CHR ''}''"
  from assms have in_s: "CHR ''}'' \<in> set s" and m: "m = rev (dropWhile ?P (rev s))"
    by (auto simp: upto_last_brace_def split: if_splits)
  have "rev s = takeWhile ?P (rev s) @ dropWhile ?P (rev s)" by simp
  then have s: "s = m @ rev (takeWhile ?P (rev s))" unfolding m by (metis rev_append rev_rev_ident)
  have np: "CHR ''}'' \<notin> set (rev (takeWhile ?P (rev s)))"
    by (auto dest: set_takeWhileD)
  have "dropWhile ?P (rev s) \<noteq> []" using in_s by (simp add: dropWhile_eq_Nil_conv)
  then have ne: "m \<noteq> []" unfolding m by simp
  have "hd (dropWhile ?P (rev s)) = CHR ''}''"
    using \<open>dropWhile ?P (rev s) \<noteq> []\<close> hd_dropWhile [of ?P "rev s"] by auto
  then have "last m = CHR ''}''" unfolding m using \<open>dropWhile ?P (rev s) \<noteq> []\<close>
    by (simp add: last_rev)
  with s np ne show ?thesis by blast
qed

lemma upto_last_brace_None: "upto_last_brace s = None \<Longrightarrow> CHR ''}'' \<notin> set s"
  by (auto simp: upto_last_brace_def split: if_splits)

lemma match_braces_Some:
  "match_braces str = Some m \<Longrightarrow>
   \<exists>pre post. str = pre @ m @ post \<and> CHR ''{'' \<notin> set pre \<and> CHR ''}'' \<notin> set post \<and>
     brace_delimited m"
proof (induction str)
  case Nil then show ?case by simp
next
  case (Cons c cs)
  show ?case
  proof (cases "c = CHR ''{''")
    case True
    with Cons.prems obtain m' where m': "upto_last_brace cs = Some m'" and m: "m = c # m'"
      by auto
    from upto_last_brace_Some [OF m'] obtain post where
      "cs = m' @ post" "CHR ''}'' \<notin> set post" "m' \<noteq> []" "last m' = CHR ''}''" by blast
    with True m have "c # cs = [] @ m @ post \<and> CHR ''{'' \<notin> set [] \<and> CHR ''}'' \<notin> set post \<and>
      brace_delimited m"
      by (cases m') (auto simp: brace_delimited_def)
    then show ?thesis by blast
  next
    case False
    with Cons.prems have "match_braces cs = Some m" by simp
    from Cons.IH [OF this] obtain pre post where
      "cs = pre @ m @ post" "CHR ''{'' \<notin> set pre" "CHR ''}'' \<notin> set post" "brace_delimited m"
      by blast
    with False have "c # cs = (c # pre) @ m @ post \<and> CHR ''{'' \<notin> set (c # pre) \<and>
      CHR ''}'' \<notin> set post \<and> brace_delimited m" by auto
    then show ?thesis by blast
  qed
qed

lemma match_braces_None:
  "match_braces str = None \<Longrightarrow> \<not> (\<exists>a b c. str = a @ b @ c \<and> brace_delimited b)"
proof (induction str)
  case Nil then show ?case by (auto simp: brace_delimited_def)
next
  case (Cons x xs)
  show ?case
  proof
    assume "\<exists>a b c. x # xs = a @ b @ c \<and> brace_delimited b"
    then obtain a b c where d: "x # xs = a @ b @ c" and b: "brace_delimited b" by blast
    from b obtain b' where b': "b = CHR ''{'' # b'" "b' \<noteq> []" "last b' = CHR ''}''"
      by (cases b) (auto simp: brace_delimited_def split: if_splits)
    show False
    proof (cases "x = CHR ''{''")
      case True
      with Cons.prems have "upto_last_brace xs = None" by simp
      then have n: "CHR ''}'' \<notin> set xs" by (rule upto_last_brace_None)
      have "CHR ''}'' \<in> set b'" using b' by (metis last_in_set)
      then have "CHR ''}'' \<in> set (a @ b @ c)" using b' by simp
      then have "CHR ''}'' \<in> set (x # xs)" unfolding d .
      with True n show False by simp
    next
      case False
      with Cons.prems have none: "match_braces xs = None" by simp
      from False d b' obtain a' where "a = x # a'" by (cases a) auto
      with d have "xs = a' @ b @ c" by simp
      with b Cons.IH [OF none] show False by blast
    qed
  qed
qed

lemma maximal_braces:
  assumes "str = pre @ m @ post" "CHR ''{'' \<notin> set pre" "CHR ''}'' \<notin> set post"
    and "str = a @ b @ c" "brace_delimited b"
  shows "length pre \<le> length a \<and> length post \<le> length c"
proof -
  from assms(5) have b: "b \<noteq> []" "hd b = CHR ''{''" "last b = CHR ''}''"
    by (auto simp: brace_delimited_def)
  have 1: "length pre \<le> length a"
  proof (rule ccontr)
    assume "\<not> length pre \<le> length a"
    then have l: "length a < length pre" by simp
    have "str ! length a = hd b" using assms(4) b(1) by (simp add: nth_append hd_conv_nth)
    moreover have "str ! length a = pre ! length a" using assms(1) l by (simp add: nth_append)
    ultimately have "CHR ''{'' \<in> set pre" using b(2) l by (metis nth_mem)
    with assms(2) show False by simp
  qed
  have 2: "length post \<le> length c"
  proof (rule ccontr)
    assume "\<not> length post \<le> length c"
    then have l: "length c < length post" by simp
    have "rev str = rev c @ rev b @ rev a" using assms(4) by simp
    then have "rev str ! length c = hd (rev b)" using b(1) by (simp add: nth_append hd_conv_nth)
    moreover have "rev str = rev post @ rev m @ rev pre" using assms(1) by simp
    then have "rev str ! length c = rev post ! length c" using l by (simp add: nth_append)
    moreover have "hd (rev b) = CHR ''}''" using b by (simp add: hd_rev)
    ultimately have "CHR ''}'' \<in> set (rev post)" using l by (metis nth_mem length_rev)
    with assms(3) show False by simp
  qed
  from 1 2 show ?thesis by simp
qed

lemma to_lower_backquote: "to_lower x = CHR 0x60 \<Longrightarrow> x = CHR 0x60"
proof (cases "map_of (zip ''ABCDEFGHIJKLMNOPQRSTUVWXYZ'' ''abcdefghijklmnopqrstuvwxyz'') x")
  case None
  assume "to_lower x = CHR 0x60"
  with None show ?thesis by (simp add: to_lower_def)
next
  case (Some l)
  assume a: "to_lower x = CHR 0x60"
  from Some have "(x, l) \<in> set (zip ''ABCDEFGHIJKLMNOPQRSTUVWXYZ'' ''abcdefghijklmnopqrstuvwxyz'')"
    by (rule map_of_SomeD)
  then have "l \<in> set ''abcdefghijklmnopqrstuvwxyz''" by (rule set_zip_rightD)
  then have "l \<noteq> CHR 0x60" by auto
  with a Some show ?thesis by (simp add: to_lower_def)
qed

lemma starts_ci_fence: "starts_ci fence s \<longleftrightarrow> prefix fence s"
proof
  assume "starts_ci fence s"
  then obtain a b c r where s: "s = a # b # c # r"
    and "to_lower a = CHR 0x60" "to_lower b = CHR 0x60" "to_lower c = CHR 0x60"
    unfolding fence_def
    by (cases s; cases "tl s"; cases "tl (tl s)") auto
  then have "a = CHR 0x60" "b = CHR 0x60" "c = CHR 0x60" by (auto dest: to_lower_backquote)
  with s show "prefix fence s" by (simp add: fence_def)
next
  assume "prefix fence s"
  then obtain r where "s = fence @ r" by (auto simp: prefix_def)
  then show "starts_ci fence s" by (simp add: fence_def to_lower_def)
qed

lemma starts_ci_append: "starts_ci p s \<Longrightarrow> starts_ci p (s @ r)"
  by (induction p s rule: starts_ci.induct) auto

lemma starts_ci_length: "starts_ci p s \<Longrightarrow> length p \<le> length s"
  by (induction p s rule: starts_ci.induct) auto

lemma starts_ci_take: "starts_ci p s \<Longrightarrow> starts_ci p (take (length p) s)"
  by (induction p s rule: starts_ci.induct) auto

lemma upto_first_fence_Some:
  "upto_first fence s = Some m \<Longrightarrow> \<exists>mid post. m = mid @ fence \<and> s = m @ post"
proof (induction s arbitrary: m)
  case Nil then show ?case by (simp add: fence_def)
next
  case (Cons c cs)
  show ?case
  proof (cases "starts_ci fence (c # cs)")
    case True
    then obtain r where r: "c # cs = fence @ r" by (auto simp: starts_ci_fence prefix_def)
    from True Cons.prems have "m = take (length fence) (c # cs)" by simp
    with r have "m = [] @ fence \<and> c # cs = m @ r" by simp
    then show ?thesis by blast
  next
    case False
    with Cons.prems obtain m' where m': "upto_first fence cs = Some m'" and m: "m = c # m'"
      by auto
    from Cons.IH [OF m'] obtain mid post where "m' = mid @ fence" "cs = m' @ post" by blast
    with m have "m = (c # mid) @ fence \<and> c # cs = m @ post" by simp
    then show ?thesis by blast
  qed
qed

lemma upto_first_None:
  "upto_first p s = None \<Longrightarrow> s = a @ b \<Longrightarrow> \<not> starts_ci p b"
proof (induction s arbitrary: a)
  case Nil then show ?case by (cases p) (auto split: if_splits)
next
  case (Cons c cs)
  from Cons.prems(1) have n: "\<not> starts_ci p (c # cs)" and r: "upto_first p cs = None"
    by (auto split: if_splits)
  show ?case
  proof (cases a)
    case Nil with Cons.prems(2) n show ?thesis by simp
  next
    case (Cons x a')
    with Cons.prems(2) have "cs = a' @ b" by simp
    with r show ?thesis by (rule Cons.IH)
  qed
qed

lemma match_fence_Some:
  "match_fence s = Some m \<Longrightarrow>
   \<exists>pre op mid post. s = pre @ m @ post \<and> m = op @ mid @ fence \<and> length op = 7 \<and>
     starts_ci (fence @ ''json'') op"
proof (induction s)
  case Nil then show ?case by simp
next
  case (Cons c cs)
  let ?s = "c # cs"
  show ?case
  proof (cases "starts_ci (fence @ ''json'') ?s \<and> upto_first fence (drop 7 ?s) \<noteq> None")
    case True
    then obtain m' where m': "upto_first fence (drop 7 ?s) = Some m'" by auto
    with True Cons.prems have m: "m = take 7 ?s @ m'" by simp
    from upto_first_fence_Some [OF m'] obtain mid post where
      mp: "m' = mid @ fence" "drop 7 ?s = m' @ post" by blast
    from True have l: "7 \<le> length ?s" using starts_ci_length [of "fence @ ''json''" ?s]
      by (simp add: fence_def)
    have "?s = take 7 ?s @ drop 7 ?s" by (simp only: append_take_drop_id)
    then have "?s = take 7 ?s @ m' @ post" by (simp only: mp(2))
    then have "?s = [] @ m @ post" unfolding m by (simp only: append_Nil append_assoc)
    moreover have "m = take 7 ?s @ mid @ fence" using m mp(1) by simp
    moreover have "length (take 7 ?s) = 7" using l by simp
    moreover have "starts_ci (fence @ ''json'') (take 7 ?s)"
    proof -
      have lp: "length (fence @ ''json'') = 7" by (simp add: fence_def)
      from True have "starts_ci (fence @ ''json'') ?s" by (rule conjunct1)
      then have "starts_ci (fence @ ''json'') (take (length (fence @ ''json'')) ?s)"
        by (rule starts_ci_take)
      then show ?thesis unfolding lp .
    qed
    ultimately show ?thesis by blast
  next
    case False
    with Cons.prems have "match_fence cs = Some m" by (auto split: option.splits)
    from Cons.IH [OF this] obtain pre op mid post where
      "cs = pre @ m @ post" "m = op @ mid @ fence" "length op = 7" "starts_ci (fence @ ''json'') op"
      by blast
    then have "?s = (c # pre) @ m @ post \<and> m = op @ mid @ fence \<and> length op = 7 \<and>
      starts_ci (fence @ ''json'') op" by simp
    then show ?thesis by blast
  qed
qed

lemma match_fence_None:
  "match_fence s = None \<Longrightarrow>
   \<not> (\<exists>pre op mid post. s = pre @ op @ mid @ fence @ post \<and> length op = 7 \<and>
        starts_ci (fence @ ''json'') op)"
proof (induction s)
  case Nil then show ?case by (auto simp: fence_def)
next
  case (Cons c cs)
  let ?s = "c # cs"
  from Cons.prems have rest: "match_fence cs = None" by (auto split: if_splits option.splits)
  show ?case
  proof
    assume "\<exists>pre op mid post. ?s = pre @ op @ mid @ fence @ post \<and> length op = 7 \<and>
        starts_ci (fence @ ''json'') op"
    then obtain pre op mid post where d: "?s = pre @ op @ mid @ fence @ post"
      and l: "length op = 7" and o: "starts_ci (fence @ ''json'') op" by blast
    show False
    proof (cases pre)
      case Nil
      with d have s: "?s = op @ (mid @ fence @ post)" by simp
      have st: "starts_ci (fence @ ''json'') ?s" unfolding s using o by (rule starts_ci_append)
      have dr: "drop 7 ?s = mid @ fence @ post" unfolding s using l by simp
      from st Cons.prems have "upto_first fence (drop 7 ?s) = None"
        by (auto split: option.splits)
      then have "\<not> starts_ci fence (fence @ post)" using dr by (rule upto_first_None)
      then show False by (simp add: starts_ci_fence)
    next
      case (Cons x pre')
      with d have "cs = pre' @ op @ mid @ fence @ post" by simp
      with l o Cons.IH [OF rest] show False by blast
    qed
  qed
qed









section \<open>Properties of the Web Research Provider\<close>







lemma strict_eq_JStr: "strict_eq (JStr a) v \<longleftrightarrow> v = JStr a"
  by (cases v) auto

lemma wiki_fallback_length: "length (fst (wiki_fallback net task hist)) \<le> 3"
  by (simp add: wiki_fallback_def Let_def split: outcome.splits option.splits sum.splits)


lemma webSearch_cases:
  "webSearch net ev task hist =
     (case search_phase net ev task hist of
        (Some results, h') \<Rightarrow> (results, h')
      | (None, h') \<Rightarrow> wiki_fallback net task h')"
  by (simp add: webSearch_def)









lemma show_nat_small:
  "show_nat 0 = ''0''" "show_nat 2 = ''2''" "show_nat 3 = ''3''" "show_nat 4 = ''4''"
  by simp_all



text \<open>The copy of \<^verbatim>\<open>webSearch\<close> in \<^verbatim>\<open>src/unnamed/part_000\<close> returns at most 5
  results.\<close>

lemma search_phase_single_length:
  assumes "search_phase_single net ev task hist = (Some results, h')"
  shows "length results \<le> 5"
proof -
  from assms obtain xs where m: "map_idx (\<lambda>i. organic_result) 0 (take 5 xs) = Inr results"
    by (auto simp: search_phase_single_def Let_def and_then_def
        split: option.splits if_splits outcome.splits sum.splits jsval.splits)
  from map_idx_Inr [OF m] show ?thesis by simp
qed

lemma webSearch_single_length: "length (fst (webSearch_single net ev task hist)) \<le> 5"
proof (cases "search_phase_single net ev task hist")
  case (Pair r h')
  show ?thesis
  proof (cases r)
    case None
    with Pair have "webSearch_single net ev task hist = wiki_fallback net task h'"
      by (simp add: webSearch_single_def)
    moreover have "length (fst (wiki_fallback net task h')) \<le> 3" by (rule wiki_fallback_length)
    ultimately show ?thesis by simp
  next
    case (Some results)
    with Pair have "length results \<le> 5" by (simp add: search_phase_single_length)
    with Pair Some show ?thesis by (simp add: webSearch_single_def)
  qed
qed

section \<open>Properties of the Request Handler\<close>

lemma task_of_body: "get_prop (js_or b (JObj [])) ''task'' = Inr (opt_prop b ''task'')"
  by (cases b) (auto simp: js_or_def)

lemma handler_with_405:
  "rq_method req \<noteq> ''POST'' \<Longrightarrow>
   handler_with search E tm net ev req hist = ((405, ErrorMessage ''Method not allowed''), hist)"
  by (simp add: handler_with_def)

lemma handler_with_400:
  assumes "rq_method req = ''POST''" "\<not> (\<exists>s. opt_prop (rq_body req) ''task'' = JStr s \<and> s \<noteq> [])"
  shows "handler_with search E tm net ev req hist = ((400, ErrorMessage missing_task), hist)"
  using assms by (cases "opt_prop (rq_body req) ''task''") (auto simp: handler_with_def task_of_body)

lemma handler_with_task:
  assumes "rq_method req = ''POST''" "opt_prop (rq_body req) ''task'' = JStr s" "s \<noteq> []"
  shows "handler_with search E tm net ev req hist = research_and_complete search E tm net ev s hist"
  using assms by (simp add: handler_with_def task_of_body)

text \<open>
  Claim C1. Whenever the method is not POST the reply is status 405 with
  \<^verbatim>\<open>{error: "Method not allowed"}\<close>, and whenever the method is POST and the body has
  no \<^verbatim>\<open>task\<close> that is a non-empty string the reply is status 400 with
  \<^verbatim>\<open>{error: "Missing 'task' in request body"}\<close>. In both cases the list of requests
  made is returned as it was: no search, no page fetch and no completion request
  is issued. This holds for both copies of the handler.
\<close>

theorem handler_validation:
  "(rq_method req \<noteq> ''POST'' \<longrightarrow>
      handler E tm net ev req hist = ((405, ErrorMessage ''Method not allowed''), hist) \<and>
      handler_single E tm net ev req hist = ((405, ErrorMessage ''Method not allowed''), hist)) \<and>
   (rq_method req = ''POST'' \<and> \<not> (\<exists>s. opt_prop (rq_body req) ''task'' = JStr s \<and> s \<noteq> []) \<longrightarrow>
      handler E tm net ev req hist = ((400, ErrorMessage missing_task), hist) \<and>
      handler_single E tm net ev req hist = ((400, ErrorMessage missing_task), hist))"
  by (simp add: handler_def handler_single_def handler_with_405 handler_with_400)

text \<open>
  The theorem at a GET request and at POST requests with no body, with a number as task
  and with the empty string as task.
\<close>

theorem handler_validation_witness:
  "handler sample_engine sample_template party_net no_key_env
     \<lparr>rq_method = ''GET'', rq_body = JObj [(''task'', JStr ''plan a party'')]\<rparr> [] =
     ((405, ErrorMessage ''Method not allowed''), []) \<and>
   handler sample_engine sample_template party_net no_key_env
     \<lparr>rq_method = ''POST'', rq_body = JUndefined\<rparr> [] =
     ((400, ErrorMessage missing_task), []) \<and>
   handler sample_engine sample_template party_net no_key_env
     \<lparr>rq_method = ''POST'', rq_body = JObj [(''task'', JNum (Fin 5))]\<rparr> [] =
     ((400, ErrorMessage missing_task), []) \<and>
   handler sample_engine sample_template party_net no_key_env
     \<lparr>rq_method = ''POST'', rq_body = JObj [(''task'', JStr [])]\<rparr> [] =
     ((400, ErrorMessage missing_task), [])"
  using
    handler_validation [of "\<lparr>rq_method = ''GET'', rq_body = JObj [(''task'', JStr ''plan a party'')]\<rparr>"
      sample_engine sample_template party_net no_key_env "[]"]
    handler_validation [of "\<lparr>rq_method = ''POST'', rq_body = JUndefined\<rparr>"
      sample_engine sample_template party_net no_key_env "[]"]
    handler_validation [of "\<lparr>rq_method = ''POST'', rq_body = JObj [(''task'', JNum (Fin 5))]\<rparr>"
      sample_engine sample_template party_net no_key_env "[]"]
    handler_validation [of "\<lparr>rq_method = ''POST'', rq_body = JObj [(''task'', JStr [])]\<rparr>"
      sample_engine sample_template party_net no_key_env "[]"]
  by simp

lemma source_block_nonempty: "source_block E i p \<noteq> []"
  by (simp add: source_block_def)

lemma context_of_pages:
  assumes "pages \<noteq> []"
  shows "context_of E pages \<noteq> []" and "prefix (source_block E 0 (hd pages)) (context_of E pages)"
proof -
  from assms obtain p ps where p: "pages = p # ps" by (cases pages) auto
  have t: "take 3 (p # ps) = p # take 2 ps" by (simp add: take_Cons')
  have "\<exists>rest. context_of E pages = source_block E 0 p @ rest"
    unfolding p context_of_def t by (simp add: join_def)
  then obtain rest where c: "context_of E pages = source_block E 0 p @ rest" by blast
  show "context_of E pages \<noteq> []" unfolding c using source_block_nonempty by simp
  show "prefix (source_block E 0 (hd pages)) (context_of E pages)"
    unfolding c by (simp add: p)
qed

lemma buildPrompt_pages:
  "pages \<noteq> [] \<Longrightarrow>
   buildPrompt E tm task pages =
     before_task tm @ task @ before_context tm @ context_of E pages @ after_context tm"
  by (simp add: buildPrompt_def context_of_pages)

lemma buildPrompt_no_pages:
  "buildPrompt E tm task [] =
     before_task tm @ task @ before_context tm @ ''(no web context provided)'' @ after_context tm"
  by (simp add: buildPrompt_def context_of_def)

lemma completion_Inr:
  "completion net name rq content hist = (Inr raw, h') \<Longrightarrow> h' = hist @ [rq]"
  by (auto simp: completion_def split: outcome.splits if_splits option.splits)

lemma call_Inr:
  assumes "(if configured (OPENAI_API_KEY ev) then callOpenAI net ev prompt hist
            else callAnthropic net ev prompt hist) = (Inr raw, h')"
  shows "\<exists>key. h' = hist @ [openai_request key prompt] \<or> h' = hist @ [anthropic_request key prompt]"
proof (cases "configured (OPENAI_API_KEY ev)")
  case True
  with assms have "callOpenAI net ev prompt hist = (Inr raw, h')" by simp
  then obtain key where
    "completion net ''OpenAI'' (openai_request key prompt) openai_content hist = (Inr raw, h')"
    by (auto simp: callOpenAI_def split: option.splits if_splits)
  then have "h' = hist @ [openai_request key prompt]" by (rule completion_Inr)
  then show ?thesis by blast
next
  case False
  with assms have "callAnthropic net ev prompt hist = (Inr raw, h')" by simp
  then obtain key where
    "completion net ''Anthropic'' (anthropic_request key prompt) anthropic_content hist = (Inr raw, h')"
    by (auto simp: callAnthropic_def split: option.splits if_splits)
  then have "h' = hist @ [anthropic_request key prompt]" by (rule completion_Inr)
  then show ?thesis by blast
qed

lemma research_and_complete_200:
  assumes "research_and_complete search E tm net ev task hist = ((200, body), h')"
  shows "\<exists>results h1 pages h2 raw parsed normalized.
     search net ev task hist = (results, h1) \<and>
     (if results \<noteq> [] then fetchPages E net results h1 else ([], h1)) = (pages, h2) \<and>
     (if configured (OPENAI_API_KEY ev) then callOpenAI net ev (buildPrompt E tm task pages) h2
      else callAnthropic net ev (buildPrompt E tm task pages) h2) = (Inr raw, h') \<and>
     safeParseJson E raw = Inr parsed \<and>
     normalize E (microTasks_of parsed) = Inr normalized \<and>
     body = Success normalized (map (\<lambda>r. (sr_title r, sr_link r)) results) (pages \<noteq> [])"
proof -
  obtain results h1 where s: "search net ev task hist = (results, h1)"
    by (cases "search net ev task hist")
  obtain pages h2 where f:
    "(if results \<noteq> [] then fetchPages E net results h1 else ([], h1)) = (pages, h2)"
    by (cases "if results \<noteq> [] then fetchPages E net results h1 else ([], h1)")
  obtain r h3 where c:
    "(if configured (OPENAI_API_KEY ev) then callOpenAI net ev (buildPrompt E tm task pages) h2
      else callAnthropic net ev (buildPrompt E tm task pages) h2) = (r, h3)"
    by (cases "if configured (OPENAI_API_KEY ev)
               then callOpenAI net ev (buildPrompt E tm task pages) h2
               else callAnthropic net ev (buildPrompt E tm task pages) h2")
  have u: "research_and_complete search E tm net ev task hist =
     (case and_then r (\<lambda>x. and_then (safeParseJson E x) (\<lambda>parsed.
             normalize E (microTasks_of parsed))) of
        Inl e \<Rightarrow> ((500, ErrorOf e), h3)
      | Inr normalized \<Rightarrow>
          ((200, Success normalized (map (\<lambda>r. (sr_title r, sr_link r)) results)
                  (length pages > 0)), h3))"
    unfolding research_and_complete_def s using f c by (simp add: Let_def)
  from assms [unfolded u] obtain normalized where
    n: "and_then r (\<lambda>x. and_then (safeParseJson E x) (\<lambda>parsed.
             normalize E (microTasks_of parsed))) = Inr normalized"
    and b: "body = Success normalized (map (\<lambda>r. (sr_title r, sr_link r)) results) (pages \<noteq> [])"
    and h: "h3 = h'"
    by (auto split: sum.splits)
  from n obtain raw parsed where "r = Inr raw" "safeParseJson E raw = Inr parsed"
    "normalize E (microTasks_of parsed) = Inr normalized"
    by (auto simp: and_then_def split: sum.splits)
  with s f c b h show ?thesis by blast
qed

lemma handler_with_200:
  assumes "handler_with search E tm net ev req hist = ((200, body), h')"
  shows "\<exists>task. rq_method req = ''POST'' \<and> opt_prop (rq_body req) ''task'' = JStr task \<and>
    task \<noteq> [] \<and> research_and_complete search E tm net ev task hist = ((200, body), h')"
proof -
  have m: "rq_method req = ''POST''"
  proof (rule ccontr)
    assume "rq_method req \<noteq> ''POST''"
    then have "handler_with search E tm net ev req hist =
      ((405, ErrorMessage ''Method not allowed''), hist)" by (rule handler_with_405)
    with assms show False by simp
  qed
  have "\<exists>s. opt_prop (rq_body req) ''task'' = JStr s \<and> s \<noteq> []"
  proof (rule ccontr)
    assume "\<not> (\<exists>s. opt_prop (rq_body req) ''task'' = JStr s \<and> s \<noteq> [])"
    with m have "handler_with search E tm net ev req hist =
      ((400, ErrorMessage missing_task), hist)" by (rule handler_with_400)
    with assms show False by simp
  qed
  then obtain s where s: "opt_prop (rq_body req) ''task'' = JStr s" "s \<noteq> []" by blast
  with m assms handler_with_task [OF m s, of search E tm net ev hist] show ?thesis by auto
qed

lemma handler_with_success:
  assumes "handler_with search E tm net ev req hist = ((200, body), h')"
  shows "\<exists>task results h1 pages h2 raw parsed normalized.
     rq_method req = ''POST'' \<and> opt_prop (rq_body req) ''task'' = JStr task \<and> task \<noteq> [] \<and>
     search net ev task hist = (results, h1) \<and>
     (if results \<noteq> [] then fetchPages E net results h1 else ([], h1)) = (pages, h2) \<and>
     (\<exists>key. h' = h2 @ [openai_request key (buildPrompt E tm task pages)] \<or>
            h' = h2 @ [anthropic_request key (buildPrompt E tm task pages)]) \<and>
     safeParseJson E raw = Inr parsed \<and>
     normalize E (microTasks_of parsed) = Inr normalized \<and>
     body = Success normalized (map (\<lambda>r. (sr_title r, sr_link r)) results) (pages \<noteq> []) \<and>
     (pages \<noteq> [] \<longrightarrow>
        buildPrompt E tm task pages =
          before_task tm @ task @ before_context tm @ context_of E pages @ after_context tm \<and>
        prefix (source_block E 0 (hd pages)) (context_of E pages)) \<and>
     (pages = [] \<longrightarrow>
        buildPrompt E tm task pages =
          before_task tm @ task @ before_context tm @ ''(no web context provided)'' @
          after_context tm)"
proof -
  from handler_with_200 [OF assms] obtain task where
    t: "rq_method req = ''POST''" "opt_prop (rq_body req) ''task'' = JStr task" "task \<noteq> []"
    and r: "research_and_complete search E tm net ev task hist = ((200, body), h')" by blast
  from research_and_complete_200 [OF r] obtain results h1 pages h2 raw parsed normalized where
    a: "search net ev task hist = (results, h1)"
      "(if results \<noteq> [] then fetchPages E net results h1 else ([], h1)) = (pages, h2)"
      "safeParseJson E raw = Inr parsed"
      "normalize E (microTasks_of parsed) = Inr normalized"
      "body = Success normalized (map (\<lambda>r. (sr_title r, sr_link r)) results) (pages \<noteq> [])"
    and c: "(if configured (OPENAI_API_KEY ev)
             then callOpenAI net ev (buildPrompt E tm task pages) h2
             else callAnthropic net ev (buildPrompt E tm task pages) h2) = (Inr raw, h')"
    by blast
  from call_Inr [OF c] have k:
    "\<exists>key. h' = h2 @ [openai_request key (buildPrompt E tm task pages)] \<or>
           h' = h2 @ [anthropic_request key (buildPrompt E tm task pages)]" .
  have p1: "pages \<noteq> [] \<longrightarrow>
        buildPrompt E tm task pages =
          before_task tm @ task @ before_context tm @ context_of E pages @ after_context tm \<and>
        prefix (source_block E 0 (hd pages)) (context_of E pages)"
    by (simp add: buildPrompt_pages context_of_pages)
  have p2: "pages = [] \<longrightarrow>
        buildPrompt E tm task pages =
          before_task tm @ task @ before_context tm @ ''(no web context provided)'' @
          after_context tm"
    by (simp add: buildPrompt_no_pages)
  from t a k p1 p2 show ?thesis by blast
qed


lemma handler_single_success:
  assumes "handler_single E tm net ev req hist = ((200, body), h')"
  shows "\<exists>task results h1 pages h2 normalized.
     webSearch_single net ev task hist = (results, h1) \<and>
     (if results \<noteq> [] then fetchPages E net results h1 else ([], h1)) = (pages, h2) \<and>
     body = Success normalized (map (\<lambda>r. (sr_title r, sr_link r)) results) (pages \<noteq> [])"
proof -
  from assms have "handler_with webSearch_single E tm net ev req hist = ((200, body), h')"
    by (simp add: handler_single_def)
  from handler_with_success [OF this] show ?thesis by blast
qed





end
